theory Spec2Isabelle
  imports Main "HOL-Library.Word"
begin

section \<open>JavaScript values, keys and the store layer\<close>

text \<open>
  The development embeds \<^verbatim>\<open>src/index.js\<close> (class \<^verbatim>\<open>AbstractStoreLayer\<close>).
  A JavaScript string is a sequence of 16-bit code units; \<^verbatim>\<open>String.fromCharCode\<close>
  reduces its argument modulo \<open>2 ^ 16\<close>, which is subtraction on \<open>16 word\<close>.
  A \<^verbatim>\<open>Buffer\<close> is a sequence of bytes.
\<close>

type_synonym jsstring = "16 word list"
type_synonym bytes = "8 word list"

text \<open>
  The values a key component may take: \<^verbatim>\<open>null\<close>, \<^verbatim>\<open>undefined\<close>, booleans, numbers,
  strings, buffers and arrays (nested keys). The type \<open>'n\<close> stands for the numbers:
  the source computes on IEEE doubles, whose arithmetic is a parameter of the model
  (see \<open>platform\<close> below).
\<close>

datatype 'n jsval =
    JNull
  | JUndefined
  | JBool bool
  | JNum 'n
  | JStr jsstring
  | JBuf bytes
  | JArr "'n jsval list"

text \<open>A structured key is an array of components.\<close>

type_synonym 'n key = "'n jsval list"

text \<open>
  Every \<^verbatim>\<open>throw new Error(msg)\<close> of the source is one constructor, named after its
  message: 'Unknown encoding', 'Undefined, null or empty key', 'Unimplemented encoding'
  and 'Invalid key selector'. \<open>CodecFailure\<close> is an exception raised inside one of
  the external libraries, \<open>JSTypeError\<close> the \<^verbatim>\<open>TypeError\<close> of an array or object
  operation on a value of another kind.
\<close>

datatype error =
    UnknownEncoding
  | InvalidKey
  | UnimplementedEncoding
  | InvalidSelector
  | CodecFailure
  | JSTypeError

definition ebind :: "error + 'a \<Rightarrow> ('a \<Rightarrow> error + 'b) \<Rightarrow> error + 'b" where
  "ebind m f = (case m of Inl e \<Rightarrow> Inl e | Inr x \<Rightarrow> f x)"

text \<open>
  What the source takes from outside the repository: double arithmetic
  (\<^verbatim>\<open>key - 0.000001\<close>, \<^verbatim>\<open>key + 0.000001\<close>, the truth value of a number), the
  \<^verbatim>\<open>bytewise\<close> codec, \<^verbatim>\<open>JSON.stringify\<close> and \<^verbatim>\<open>JSON.parse\<close>, and the UTF-8
  conversion between strings and buffers done by \<^verbatim>\<open>new Buffer(string)\<close> and by
  \<^verbatim>\<open>JSON.parse(buffer)\<close>. A codec function returns \<open>None\<close> where the library throws.
\<close>

record 'n platform =
  num_sub_eps :: "'n \<Rightarrow> 'n"
  num_add_eps :: "'n \<Rightarrow> 'n"
  num_truthy :: "'n \<Rightarrow> bool"
  bytewise_encode :: "'n jsval \<Rightarrow> bytes option"
  bytewise_decode :: "bytes \<Rightarrow> 'n jsval option"
  json_stringify :: "'n jsval \<Rightarrow> jsstring option"
  json_parse :: "jsstring \<Rightarrow> 'n jsval option"
  utf8_encode :: "jsstring \<Rightarrow> bytes"
  utf8_decode :: "bytes \<Rightarrow> jsstring"

text \<open>
  The constructor stores \<^verbatim>\<open>keyEncoding\<close> (default 'bytewise') and \<^verbatim>\<open>valueEncoding\<close>
  (default 'json'). Its third field, \<^verbatim>\<open>root\<close>, is read by \<^verbatim>\<open>insideTransaction\<close> only
  and is left out.
\<close>

record layer =
  keyEncoding :: string
  valueEncoding :: string

definition default_layer :: layer where
  "default_layer = \<lparr>keyEncoding = ''bytewise'', valueEncoding = ''json''\<rparr>"

text \<open>JavaScript's \<^verbatim>\<open>ToBoolean\<close>, used by \<^verbatim>\<open>!key\<close> and by \<^verbatim>\<open>options.reverse\<close>.\<close>

fun truthy :: "'n platform \<Rightarrow> 'n jsval \<Rightarrow> bool" where
  "truthy P JNull = False"
| "truthy P JUndefined = False"
| "truthy P (JBool b) = b"
| "truthy P (JNum n) = num_truthy P n"
| "truthy P (JStr s) = (s \<noteq> [])"
| "truthy P (JBuf b) = True"
| "truthy P (JArr xs) = True"

text \<open>\<^verbatim>\<open>value == null\<close> holds for \<^verbatim>\<open>null\<close> and \<^verbatim>\<open>undefined\<close> only.\<close>

fun nullish :: "'n jsval \<Rightarrow> bool" where
  "nullish JNull = True"
| "nullish JUndefined = True"
| "nullish v = False"

section \<open>The codec wrappers\<close>

text \<open>
  \<^verbatim>\<open>encode\<close> returns a buffer, or \<^verbatim>\<open>undefined\<close> (\<open>None\<close>) for the JSON encoding of
  \<^verbatim>\<open>undefined\<close>.
\<close>

definition encode :: "'n platform \<Rightarrow> 'n jsval \<Rightarrow> string \<Rightarrow> error + bytes option" where
  "encode P v encoding =
     (if encoding = ''bytewise'' then
        (case bytewise_encode P v of None \<Rightarrow> Inl CodecFailure | Some b \<Rightarrow> Inr (Some b))
      else if encoding = ''json'' then
        (if v = JUndefined then Inr None
         else (case json_stringify P v of
                 None \<Rightarrow> Inl CodecFailure
               | Some s \<Rightarrow> Inr (Some (utf8_encode P s))))
      else Inl UnknownEncoding)"

definition encodeKey :: "'n platform \<Rightarrow> layer \<Rightarrow> 'n jsval \<Rightarrow> error + bytes option" where
  "encodeKey P L k =
     (if \<not> truthy P k then Inl InvalidKey else encode P k (keyEncoding L))"

definition encodeValue :: "'n platform \<Rightarrow> layer \<Rightarrow> 'n jsval \<Rightarrow> error + bytes option" where
  "encodeValue P L v =
     (if nullish v then Inr None else encode P v (valueEncoding L))"

text \<open>\<^verbatim>\<open>decode\<close> is handed a buffer.\<close>

definition decode :: "'n platform \<Rightarrow> bytes \<Rightarrow> string \<Rightarrow> error + 'n jsval" where
  "decode P b encoding =
     (if encoding = ''bytewise'' then
        (case bytewise_decode P b of None \<Rightarrow> Inl CodecFailure | Some v \<Rightarrow> Inr v)
      else if encoding = ''json'' then
        (case json_parse P (utf8_decode P b) of None \<Rightarrow> Inl CodecFailure | Some v \<Rightarrow> Inr v)
      else Inl UnknownEncoding)"

text \<open>
  \<^verbatim>\<open>decodeKey\<close> and \<^verbatim>\<open>decodeValue\<close> are handed a buffer or nothing (\<^verbatim>\<open>undefined\<close>,
  \<^verbatim>\<open>null\<close>). A buffer is an object, so \<^verbatim>\<open>!key\<close> is false for every buffer, the
  empty one included.
\<close>

definition decodeKey :: "'n platform \<Rightarrow> layer \<Rightarrow> bytes option \<Rightarrow> error + 'n jsval" where
  "decodeKey P L k =
     (case k of None \<Rightarrow> Inl InvalidKey | Some b \<Rightarrow> decode P b (keyEncoding L))"

definition decodeValue :: "'n platform \<Rightarrow> layer \<Rightarrow> bytes option \<Rightarrow> error + 'n jsval" where
  "decodeValue P L v =
     (case v of None \<Rightarrow> Inr JUndefined | Some b \<Rightarrow> decode P b (valueEncoding L))"

section \<open>Adjacent keys\<close>

text \<open>
  \<^verbatim>\<open>_getPreviousKey\<close>: a number loses the epsilon; a non-empty string loses its last
  code unit \<open>c\<close> and gains \<open>c - 1\<close> (taken modulo \<open>2 ^ 16\<close> by
  \<^verbatim>\<open>String.fromCharCode\<close>) followed by U+FFFF; anything else is returned as it is.
\<close>

fun getPreviousKey' :: "'n platform \<Rightarrow> 'n jsval \<Rightarrow> 'n jsval" where
  "getPreviousKey' P (JNum n) = JNum (num_sub_eps P n)"
| "getPreviousKey' P (JStr s) =
     (if s = [] then JStr s else JStr (butlast s @ [last s - 1, 0xFFFF]))"
| "getPreviousKey' P v = v"

text \<open>\<^verbatim>\<open>_getNextKey\<close>: the last code unit is put back, followed by U+0001.\<close>

fun getNextKey' :: "'n platform \<Rightarrow> 'n jsval \<Rightarrow> 'n jsval" where
  "getNextKey' P (JNum n) = JNum (num_add_eps P n)"
| "getNextKey' P (JStr s) =
     (if s = [] then JStr s else JStr (butlast s @ [last s, 0x0001]))"
| "getNextKey' P v = v"

text \<open>
  \<^verbatim>\<open>getPreviousKey\<close> and \<^verbatim>\<open>getNextKey\<close> copy the array, pop its last component,
  replace it and push it back.
\<close>

definition getPreviousKey :: "'n platform \<Rightarrow> layer \<Rightarrow> 'n key \<Rightarrow> error + 'n key" where
  "getPreviousKey P L k =
     (if keyEncoding L \<noteq> ''bytewise'' then Inl UnimplementedEncoding
      else if k = [] then Inr k
      else Inr (butlast k @ [getPreviousKey' P (last k)]))"

definition getNextKey :: "'n platform \<Rightarrow> layer \<Rightarrow> 'n key \<Rightarrow> error + 'n key" where
  "getNextKey P L k =
     (if keyEncoding L \<noteq> ''bytewise'' then Inl UnimplementedEncoding
      else if k = [] then Inr k
      else Inr (butlast k @ [getNextKey' P (last k)]))"

definition getEmptyKey :: "layer \<Rightarrow> error + 'n key" where
  "getEmptyKey L =
     (if keyEncoding L \<noteq> ''bytewise'' then Inl UnimplementedEncoding else Inr [])"

definition getMinimumKey :: "layer \<Rightarrow> error + 'n key" where
  "getMinimumKey L =
     (if keyEncoding L \<noteq> ''bytewise'' then Inl UnimplementedEncoding else Inr [JNull])"

definition getMaximumKey :: "layer \<Rightarrow> error + 'n key" where
  "getMaximumKey L =
     (if keyEncoding L \<noteq> ''bytewise'' then Inl UnimplementedEncoding else Inr [JUndefined])"

text \<open>\<^verbatim>\<open>normalizeKey\<close> wraps whatever is not an array in a one-element array.\<close>

definition normalizeKey :: "layer \<Rightarrow> 'n jsval \<Rightarrow> error + 'n key" where
  "normalizeKey L v =
     (if keyEncoding L \<noteq> ''bytewise'' then Inl UnimplementedEncoding
      else Inr (case v of JArr xs \<Rightarrow> xs | _ \<Rightarrow> [v]))"

definition concatKeys :: "layer \<Rightarrow> 'n key \<Rightarrow> 'n key \<Rightarrow> error + 'n key" where
  "concatKeys L key1 key2 =
     (if keyEncoding L \<noteq> ''bytewise'' then Inl UnimplementedEncoding
      else Inr (key1 @ key2))"

section \<open>Range selectors\<close>

text \<open>
  The selector config is a plain object: a map from its own property names to values.
  A property read yields \<^verbatim>\<open>undefined\<close> for an unbound name, and \<^verbatim>\<open>delete\<close> unbinds.
  \<open>hasOwnProperty\<close> is the method every object inherits
  (\<^verbatim>\<open>Object.prototype.hasOwnProperty\<close>): it asks whether a name is bound, possibly to
  \<^verbatim>\<open>undefined\<close>.
\<close>

type_synonym 'n options = "string \<Rightarrow> 'n jsval option"

definition hasOwnProperty :: "'n options \<Rightarrow> string \<Rightarrow> bool" where
  "hasOwnProperty opts p = (opts p \<noteq> None)"

definition getprop :: "'n options \<Rightarrow> string \<Rightarrow> 'n jsval" where
  "getprop opts p = (case opts p of None \<Rightarrow> JUndefined | Some v \<Rightarrow> v)"

text \<open>
  The source does not call the inherited method directly: it writes
  \<^verbatim>\<open>options.hasOwnProperty(p)\<close>, which reads the property \<^verbatim>\<open>hasOwnProperty\<close> of the
  config and calls what it finds. A config with no own property of that name inherits the
  method. An own property of that name hides the method; its value is one of the values
  above, none of which is a function, and the call throws a \<^verbatim>\<open>TypeError\<close>.
\<close>

definition call_hasOwnProperty :: "'n options \<Rightarrow> string \<Rightarrow> error + bool" where
  "call_hasOwnProperty opts p =
     (if hasOwnProperty opts ''hasOwnProperty'' then Inl JSTypeError
      else Inr (hasOwnProperty opts p))"

text \<open>
  \<^verbatim>\<open>concatKeys\<close> is called on \<^verbatim>\<open>options.start\<close> and \<^verbatim>\<open>options.end\<close> as read back
  from the object. \<^verbatim>\<open>key1.concat(key2)\<close> needs an array for \<open>key1\<close>: \<open>getkey\<close> is
  that read, made once the arguments are evaluated. Every path assigns an array to the
  property first, so the \<open>JSTypeError\<close> branch of \<open>getkey\<close> is dead code
  (\<open>normalizeKeySelectors_type_error_iff\<close>). For \<open>key2\<close>, \<^verbatim>\<open>concat\<close> takes the elements
  of an array and anything else as one element.
\<close>

definition getkey :: "'n options \<Rightarrow> string \<Rightarrow> error + 'n key" where
  "getkey opts p = (case getprop opts p of JArr xs \<Rightarrow> Inr xs | _ \<Rightarrow> Inl JSTypeError)"

definition concat_items :: "'n jsval \<Rightarrow> 'n key" where
  "concat_items v = (case v of JArr xs \<Rightarrow> xs | _ \<Rightarrow> [v])"

text \<open>Lines 138 to 143: \<^verbatim>\<open>value\<close> excludes \<^verbatim>\<open>start\<close> and \<^verbatim>\<open>end\<close>, and sets both.\<close>

definition select_value :: "'n options \<Rightarrow> error + 'n options" where
  "select_value opts =
     ebind (call_hasOwnProperty opts ''value'') (\<lambda>b. if b then
       ebind (call_hasOwnProperty opts ''start'') (\<lambda>b1. if b1 then Inl InvalidSelector else
       ebind (call_hasOwnProperty opts ''end'') (\<lambda>b2. if b2 then Inl InvalidSelector else
       Inr (opts(''start'' \<mapsto> getprop opts ''value'',
                 ''end'' \<mapsto> getprop opts ''value''))))
     else Inr opts)"

text \<open>Lines 147 to 162: the lower bound.\<close>

definition select_start :: "'n platform \<Rightarrow> layer \<Rightarrow> 'n options \<Rightarrow> error + 'n options" where
  "select_start P L opts =
     ebind (ebind (call_hasOwnProperty opts ''start'') (\<lambda>b. if b then
              ebind (call_hasOwnProperty opts ''startAfter'') (\<lambda>b'.
                if b' then Inl InvalidSelector
                else ebind (normalizeKey L (getprop opts ''start''))
                       (\<lambda>k. Inr (opts(''start'' \<mapsto> JArr k))))
            else Inr opts)) (\<lambda>o1.
     ebind (ebind (call_hasOwnProperty o1 ''startAfter'') (\<lambda>b. if b then
              ebind (normalizeKey L (getprop o1 ''startAfter'')) (\<lambda>key.
              ebind (if truthy P (getprop o1 ''reverse'') then getPreviousKey P L key
                     else getNextKey P L key) (\<lambda>key'.
              Inr ((o1(''start'' \<mapsto> JArr key'))(''startAfter'' := None))))
            else Inr o1)) (\<lambda>o2.
     ebind (ebind (call_hasOwnProperty o2 ''start'') (\<lambda>b. if \<not> b then
              ebind (getEmptyKey L) (\<lambda>k. Inr (o2(''start'' \<mapsto> JArr k)))
            else Inr o2)) (\<lambda>o3.
     if truthy P (getprop o3 ''reverse'') then
       ebind (getMaximumKey L) (\<lambda>m.
       ebind (getkey o3 ''start'') (\<lambda>s.
       ebind (concatKeys L s m) (\<lambda>k. Inr (o3(''start'' \<mapsto> JArr k)))))
     else Inr o3)))"

text \<open>Lines 164 to 179: the upper bound, with the directions exchanged.\<close>

definition select_end :: "'n platform \<Rightarrow> layer \<Rightarrow> 'n options \<Rightarrow> error + 'n options" where
  "select_end P L opts =
     ebind (ebind (call_hasOwnProperty opts ''end'') (\<lambda>b. if b then
              ebind (call_hasOwnProperty opts ''endBefore'') (\<lambda>b'.
                if b' then Inl InvalidSelector
                else ebind (normalizeKey L (getprop opts ''end''))
                       (\<lambda>k. Inr (opts(''end'' \<mapsto> JArr k))))
            else Inr opts)) (\<lambda>o1.
     ebind (ebind (call_hasOwnProperty o1 ''endBefore'') (\<lambda>b. if b then
              ebind (normalizeKey L (getprop o1 ''endBefore'')) (\<lambda>key.
              ebind (if truthy P (getprop o1 ''reverse'') then getNextKey P L key
                     else getPreviousKey P L key) (\<lambda>key'.
              Inr ((o1(''end'' \<mapsto> JArr key'))(''endBefore'' := None))))
            else Inr o1)) (\<lambda>o2.
     ebind (ebind (call_hasOwnProperty o2 ''end'') (\<lambda>b. if \<not> b then
              ebind (getEmptyKey L) (\<lambda>k. Inr (o2(''end'' \<mapsto> JArr k)))
            else Inr o2)) (\<lambda>o3.
     if \<not> truthy P (getprop o3 ''reverse'') then
       ebind (getMaximumKey L) (\<lambda>m.
       ebind (getkey o3 ''end'') (\<lambda>e.
       ebind (concatKeys L e m) (\<lambda>k. Inr (o3(''end'' \<mapsto> JArr k)))))
     else Inr o3)))"

text \<open>Lines 181 to 186: the prefix goes in front of both bounds and is deleted.\<close>

definition select_prefix :: "layer \<Rightarrow> 'n options \<Rightarrow> error + 'n options" where
  "select_prefix L opts =
     ebind (call_hasOwnProperty opts ''prefix'') (\<lambda>b. if b then
        ebind (normalizeKey L (getprop opts ''prefix'')) (\<lambda>prefix.
        ebind (ebind (concatKeys L prefix (concat_items (getprop opts ''start'')))
                 (\<lambda>k. Inr (opts(''start'' \<mapsto> JArr k)))) (\<lambda>o1.
        ebind (ebind (concatKeys L prefix (concat_items (getprop o1 ''end'')))
                 (\<lambda>k. Inr (o1(''end'' \<mapsto> JArr k)))) (\<lambda>o2.
        Inr (o2(''prefix'' := None)))))
      else Inr opts)"

text \<open>Lines 188 to 192: under \<^verbatim>\<open>reverse\<close> the two bounds change places.\<close>

definition select_swap :: "'n platform \<Rightarrow> 'n options \<Rightarrow> 'n options" where
  "select_swap P opts =
     (if truthy P (getprop opts ''reverse'') then
        opts(''start'' \<mapsto> getprop opts ''end'', ''end'' \<mapsto> getprop opts ''start'')
      else opts)"

text \<open>
  \<^verbatim>\<open>normalizeKeySelectors\<close> works on a copy of its argument (\<^verbatim>\<open>clone(options)\<close>) and
  returns the copy.
\<close>

definition normalizeKeySelectors ::
  "'n platform \<Rightarrow> layer \<Rightarrow> 'n options \<Rightarrow> error + 'n options" where
  "normalizeKeySelectors P L options =
     ebind (select_value options) (\<lambda>o1.
     ebind (select_start P L o1) (\<lambda>o2.
     ebind (select_end P L o2) (\<lambda>o3.
     ebind (select_prefix L o3) (\<lambda>o4.
     Inr (select_swap P o4)))))"

section \<open>The encoded order of keys\<close>

text \<open>
  Modelled from the spec: the order of encoded keys, which belongs to the external tuple
  codec (\<^verbatim>\<open>bytewise\<close>) and is not in the repository. The specification's data model
  gives it: the kinds of components are totally ordered, with \<^verbatim>\<open>null\<close> below and
  \<^verbatim>\<open>undefined\<close> above every other value; strings are compared code unit by code
  unit, buffers byte by byte, numbers by their value and arrays component by component;
  a key sorts before each of its extensions. Between the two sentinels the kinds are
  ranked as the codec ranks them: booleans, numbers, buffers, strings, arrays.
\<close>

fun str_less :: "('a::linorder) list \<Rightarrow> 'a list \<Rightarrow> bool" where
  "str_less [] [] = False"
| "str_less [] (y # ys) = True"
| "str_less (x # xs) [] = False"
| "str_less (x # xs) (y # ys) = (x < y \<or> (x = y \<and> str_less xs ys))"

fun kind_rank :: "'n jsval \<Rightarrow> nat" where
  "kind_rank JNull = 0"
| "kind_rank (JBool b) = 1"
| "kind_rank (JNum n) = 2"
| "kind_rank (JBuf b) = 3"
| "kind_rank (JStr s) = 4"
| "kind_rank (JArr xs) = 5"
| "kind_rank JUndefined = 6"

fun comp_less :: "('n::linorder) jsval \<Rightarrow> 'n jsval \<Rightarrow> bool"
  and key_less :: "('n::linorder) key \<Rightarrow> 'n key \<Rightarrow> bool" where
  "comp_less (JBool a) (JBool b) = (\<not> a \<and> b)"
| "comp_less (JNum a) (JNum b) = (a < b)"
| "comp_less (JBuf a) (JBuf b) = str_less a b"
| "comp_less (JStr a) (JStr b) = str_less a b"
| "comp_less (JArr a) (JArr b) = key_less a b"
| "comp_less a b = (kind_rank a < kind_rank b)"
| "key_less [] [] = False"
| "key_less [] (y # ys) = True"
| "key_less (x # xs) [] = False"
| "key_less (x # xs) (y # ys) = (comp_less x y \<or> (x = y \<and> key_less xs ys))"

definition key_le :: "('n::linorder) key \<Rightarrow> 'n key \<Rightarrow> bool" where
  "key_le a b = (a = b \<or> key_less a b)"

text \<open>
  The keys a canonical range selects: those from \<^verbatim>\<open>start\<close> on that sort before
  \<^verbatim>\<open>end\<close>.
\<close>

definition in_range :: "('n::linorder) key \<Rightarrow> 'n key \<Rightarrow> 'n key \<Rightarrow> bool" where
  "in_range s e k = (key_le s k \<and> key_less k e)"

definition selects :: "('n::linorder) options \<Rightarrow> 'n key \<Rightarrow> bool" where
  "selects r k =
     (case (r ''start'', r ''end'') of
        (Some (JArr s), Some (JArr e)) \<Rightarrow> in_range s e k
      | _ \<Rightarrow> False)"

text \<open>
  A platform to run the definitions on: numbers are counted in millionths, so that the
  epsilon is one unit, and the codecs cover \<^verbatim>\<open>null\<close> and the booleans only.
\<close>

definition micro_platform :: "int platform" where
  "micro_platform = \<lparr>
     num_sub_eps = (\<lambda>x. x - 1),
     num_add_eps = (\<lambda>x. x + 1),
     num_truthy = (\<lambda>x. x \<noteq> 0),
     bytewise_encode = (\<lambda>v. case v of JNull \<Rightarrow> Some [0x10] | JBool b \<Rightarrow> Some [if b then 0x21 else 0x20]
                               | JUndefined \<Rightarrow> Some [0xF0] | _ \<Rightarrow> None),
     bytewise_decode = (\<lambda>b. if b = [0x10] then Some JNull else if b = [0x20] then Some (JBool False)
                             else if b = [0x21] then Some (JBool True)
                             else if b = [0xF0] then Some JUndefined else None),
     json_stringify = (\<lambda>v. case v of JNull \<Rightarrow> Some [0x6E, 0x75, 0x6C, 0x6C]
                              | JBool True \<Rightarrow> Some [0x74, 0x72, 0x75, 0x65]
                              | JBool False \<Rightarrow> Some [0x66, 0x61, 0x6C, 0x73, 0x65]
                              | _ \<Rightarrow> None),
     json_parse = (\<lambda>s. if s = [0x6E, 0x75, 0x6C, 0x6C] then Some JNull
                        else if s = [0x74, 0x72, 0x75, 0x65] then Some (JBool True)
                        else if s = [0x66, 0x61, 0x6C, 0x73, 0x65] then Some (JBool False)
                        else None),
     utf8_encode = map ucast,
     utf8_decode = map ucast\<rparr>"

section \<open>The normalizer on the heap\<close>

text \<open>
  Arrays and objects are mutable and shared in JavaScript, and the normalizer writes to
  the copy it makes of its argument. To say what it leaves alone, the same code is
  modelled over an explicit store: a heap is a list of cells, an address is an index
  into it, and a value is a primitive or a reference. Buffers are never written here and
  stay values. The config is a plain object and a key is an array: a property access on
  anything but an object cell, and an array operation on anything but an array cell,
  raise \<open>JSTypeError\<close>.
\<close>

datatype 'n hval =
    HNull
  | HUndefined
  | HBool bool
  | HNum 'n
  | HStr jsstring
  | HBuf bytes
  | HRef nat

type_synonym 'n props = "(string \<times> 'n hval) list"

datatype 'n cell = Array "'n hval list" | Object "'n props"

type_synonym 'n heap = "'n cell list"

text \<open>
  A computation takes the heap and returns a result or an exception, and the heap it
  leaves. An exception keeps the writes made before it.
\<close>

type_synonym ('n, 'a) hm = "'n heap \<Rightarrow> (error + 'a) \<times> 'n heap"

definition hret :: "'a \<Rightarrow> ('n, 'a) hm" where
  "hret x h = (Inr x, h)"

definition hthrow :: "error \<Rightarrow> ('n, 'a) hm" where
  "hthrow e h = (Inl e, h)"

definition hbind :: "('n, 'a) hm \<Rightarrow> ('a \<Rightarrow> ('n, 'b) hm) \<Rightarrow> ('n, 'b) hm" where
  "hbind m f h = (case m h of (Inl e, h') \<Rightarrow> (Inl e, h') | (Inr x, h') \<Rightarrow> f x h')"

definition hseq :: "('n, unit) hm \<Rightarrow> ('n, 'b) hm \<Rightarrow> ('n, 'b) hm" where
  "hseq m k = hbind m (\<lambda>_. k)"

text \<open>A new cell goes to the end of the heap; its address is the old length.\<close>

definition alloc :: "'n cell \<Rightarrow> ('n, 'n hval) hm" where
  "alloc c h = (Inr (HRef (length h)), h @ [c])"

definition lookup :: "'n heap \<Rightarrow> 'n hval \<Rightarrow> 'n cell option" where
  "lookup h v = (case v of HRef a \<Rightarrow> (if a < length h then Some (h ! a) else None) | _ \<Rightarrow> None)"

definition read_array :: "'n hval \<Rightarrow> ('n, 'n hval list) hm" where
  "read_array v h =
     (case lookup h v of Some (Array xs) \<Rightarrow> (Inr xs, h) | _ \<Rightarrow> (Inl JSTypeError, h))"

definition read_object :: "'n hval \<Rightarrow> ('n, 'n props) hm" where
  "read_object v h =
     (case lookup h v of Some (Object ps) \<Rightarrow> (Inr ps, h) | _ \<Rightarrow> (Inl JSTypeError, h))"

definition store :: "'n hval \<Rightarrow> 'n cell \<Rightarrow> ('n, unit) hm" where
  "store v c h =
     (case v of HRef a \<Rightarrow> (if a < length h then (Inr (), h[a := c]) else (Inl JSTypeError, h))
      | _ \<Rightarrow> (Inl JSTypeError, h))"

definition isArray :: "'n hval \<Rightarrow> ('n, bool) hm" where
  "isArray v h = (case lookup h v of Some (Array xs) \<Rightarrow> (Inr True, h) | _ \<Rightarrow> (Inr False, h))"

text \<open>
  \<^verbatim>\<open>clone\<close> of lodash makes a shallow copy: a new cell with the same contents for an
  array or an object, the value itself for a primitive.
\<close>

definition clone :: "'n hval \<Rightarrow> ('n, 'n hval) hm" where
  "clone v h = (case lookup h v of Some c \<Rightarrow> alloc c h | None \<Rightarrow> (Inr v, h))"

text \<open>The properties of an object, in insertion order.\<close>

definition has_prop :: "'n props \<Rightarrow> string \<Rightarrow> bool" where
  "has_prop ps p = (map_of ps p \<noteq> None)"

definition get_prop :: "'n props \<Rightarrow> string \<Rightarrow> 'n hval" where
  "get_prop ps p = (case map_of ps p of None \<Rightarrow> HUndefined | Some v \<Rightarrow> v)"

definition set_prop :: "'n props \<Rightarrow> string \<Rightarrow> 'n hval \<Rightarrow> 'n props" where
  "set_prop ps p v =
     (if has_prop ps p then map (\<lambda>(q, w). if q = p then (q, v) else (q, w)) ps
      else ps @ [(p, v)])"

definition delete_prop :: "'n props \<Rightarrow> string \<Rightarrow> 'n props" where
  "delete_prop ps p = filter (\<lambda>(q, w). q \<noteq> p) ps"

text \<open>
  \<^verbatim>\<open>obj.hasOwnProperty(p)\<close>: an own property named \<^verbatim>\<open>hasOwnProperty\<close> hides the
  inherited method, and no value of the heap is a function.
\<close>

definition hasOwn :: "'n hval \<Rightarrow> string \<Rightarrow> ('n, bool) hm" where
  "hasOwn obj p =
     hbind (read_object obj) (\<lambda>ps.
       if has_prop ps ''hasOwnProperty'' then hthrow JSTypeError
       else hret (has_prop ps p))"

definition getp :: "'n hval \<Rightarrow> string \<Rightarrow> ('n, 'n hval) hm" where
  "getp obj p = hbind (read_object obj) (\<lambda>ps. hret (get_prop ps p))"

definition setp :: "'n hval \<Rightarrow> string \<Rightarrow> 'n hval \<Rightarrow> ('n, unit) hm" where
  "setp obj p v = hbind (read_object obj) (\<lambda>ps. store obj (Object (set_prop ps p v)))"

definition delp :: "'n hval \<Rightarrow> string \<Rightarrow> ('n, unit) hm" where
  "delp obj p = hbind (read_object obj) (\<lambda>ps. store obj (Object (delete_prop ps p)))"

fun truthy_h :: "'n platform \<Rightarrow> 'n hval \<Rightarrow> bool" where
  "truthy_h P HNull = False"
| "truthy_h P HUndefined = False"
| "truthy_h P (HBool b) = b"
| "truthy_h P (HNum n) = num_truthy P n"
| "truthy_h P (HStr s) = (s \<noteq> [])"
| "truthy_h P (HBuf b) = True"
| "truthy_h P (HRef a) = True"

fun getPreviousKey'_h :: "'n platform \<Rightarrow> 'n hval \<Rightarrow> 'n hval" where
  "getPreviousKey'_h P (HNum n) = HNum (num_sub_eps P n)"
| "getPreviousKey'_h P (HStr s) =
     (if s = [] then HStr s else HStr (butlast s @ [last s - 1, 0xFFFF]))"
| "getPreviousKey'_h P v = v"

fun getNextKey'_h :: "'n platform \<Rightarrow> 'n hval \<Rightarrow> 'n hval" where
  "getNextKey'_h P (HNum n) = HNum (num_add_eps P n)"
| "getNextKey'_h P (HStr s) =
     (if s = [] then HStr s else HStr (butlast s @ [last s, 0x0001]))"
| "getNextKey'_h P v = v"

definition bytewise_only :: "layer \<Rightarrow> ('n, unit) hm" where
  "bytewise_only L =
     (if keyEncoding L \<noteq> ''bytewise'' then hthrow UnimplementedEncoding else hret ())"

text \<open>
  \<^verbatim>\<open>getPreviousKey\<close>: \<^verbatim>\<open>keys = clone(key)\<close>, then \<^verbatim>\<open>keys.pop()\<close> and
  \<^verbatim>\<open>keys.push(...)\<close>, two writes to the copy.
\<close>

definition getPreviousKey_h :: "'n platform \<Rightarrow> layer \<Rightarrow> 'n hval \<Rightarrow> ('n, 'n hval) hm" where
  "getPreviousKey_h P L key =
     hseq (bytewise_only L) (
     hbind (clone key) (\<lambda>keys.
     hbind (read_array keys) (\<lambda>xs.
     if xs = [] then hret keys
     else hseq (store keys (Array (butlast xs))) (
          hseq (store keys (Array (butlast xs @ [getPreviousKey'_h P (last xs)]))) (
          hret keys)))))"

definition getNextKey_h :: "'n platform \<Rightarrow> layer \<Rightarrow> 'n hval \<Rightarrow> ('n, 'n hval) hm" where
  "getNextKey_h P L key =
     hseq (bytewise_only L) (
     hbind (clone key) (\<lambda>keys.
     hbind (read_array keys) (\<lambda>xs.
     if xs = [] then hret keys
     else hseq (store keys (Array (butlast xs))) (
          hseq (store keys (Array (butlast xs @ [getNextKey'_h P (last xs)]))) (
          hret keys)))))"

definition getEmptyKey_h :: "layer \<Rightarrow> ('n, 'n hval) hm" where
  "getEmptyKey_h L = hseq (bytewise_only L) (alloc (Array []))"

definition getMaximumKey_h :: "layer \<Rightarrow> ('n, 'n hval) hm" where
  "getMaximumKey_h L = hseq (bytewise_only L) (alloc (Array [HUndefined]))"

text \<open>\<^verbatim>\<open>normalizeKey\<close> returns the array it is given, not a copy.\<close>

definition normalizeKey_h :: "layer \<Rightarrow> 'n hval \<Rightarrow> ('n, 'n hval) hm" where
  "normalizeKey_h L key =
     hseq (bytewise_only L) (
     hbind (isArray key) (\<lambda>b. if \<not> b then alloc (Array [key]) else hret key))"

text \<open>
  \<^verbatim>\<open>key1.concat(key2)\<close> builds a new array from the elements of \<open>key1\<close> followed by
  the elements of \<open>key2\<close>, or by \<open>key2\<close> itself where it is not an array.
\<close>

definition concatKeys_h :: "layer \<Rightarrow> 'n hval \<Rightarrow> 'n hval \<Rightarrow> ('n, 'n hval) hm" where
  "concatKeys_h L key1 key2 =
     hseq (bytewise_only L) (
     hbind (read_array key1) (\<lambda>xs.
     hbind (isArray key2) (\<lambda>b.
     if b then hbind (read_array key2) (\<lambda>ys. alloc (Array (xs @ ys)))
     else alloc (Array (xs @ [key2])))))"

text \<open>The five parts of \<^verbatim>\<open>normalizeKeySelectors\<close>, as above, on the copy.\<close>

definition select_value_h :: "'n hval \<Rightarrow> ('n, unit) hm" where
  "select_value_h options =
     hbind (hasOwn options ''value'') (\<lambda>b. if b then
       hbind (hasOwn options ''start'') (\<lambda>b1. if b1 then hthrow InvalidSelector else
       hbind (hasOwn options ''end'') (\<lambda>b2. if b2 then hthrow InvalidSelector else
       hseq (hbind (getp options ''value'') (setp options ''start''))
            (hbind (getp options ''value'') (setp options ''end''))))
     else hret ())"

definition select_start_h :: "'n platform \<Rightarrow> layer \<Rightarrow> 'n hval \<Rightarrow> ('n, unit) hm" where
  "select_start_h P L options =
     hseq (hbind (hasOwn options ''start'') (\<lambda>b. if b then
             hbind (hasOwn options ''startAfter'') (\<lambda>b'. if b' then hthrow InvalidSelector else
             hbind (getp options ''start'') (\<lambda>v.
             hbind (normalizeKey_h L v) (setp options ''start'')))
           else hret ())) (
     hseq (hbind (hasOwn options ''startAfter'') (\<lambda>b. if b then
             hbind (getp options ''startAfter'') (\<lambda>v.
             hbind (normalizeKey_h L v) (\<lambda>key.
             hbind (getp options ''reverse'') (\<lambda>rev.
             hbind (if truthy_h P rev then getPreviousKey_h P L key
                    else getNextKey_h P L key) (\<lambda>key'.
             hseq (setp options ''start'' key') (delp options ''startAfter'')))))
           else hret ())) (
     hseq (hbind (hasOwn options ''start'') (\<lambda>b. if \<not> b then
             hbind (getEmptyKey_h L) (setp options ''start'')
           else hret ())) (
     hbind (getp options ''reverse'') (\<lambda>rev. if truthy_h P rev then
       hbind (getp options ''start'') (\<lambda>s.
       hbind (getMaximumKey_h L) (\<lambda>m.
       hbind (concatKeys_h L s m) (setp options ''start'')))
     else hret ()))))"

definition select_end_h :: "'n platform \<Rightarrow> layer \<Rightarrow> 'n hval \<Rightarrow> ('n, unit) hm" where
  "select_end_h P L options =
     hseq (hbind (hasOwn options ''end'') (\<lambda>b. if b then
             hbind (hasOwn options ''endBefore'') (\<lambda>b'. if b' then hthrow InvalidSelector else
             hbind (getp options ''end'') (\<lambda>v.
             hbind (normalizeKey_h L v) (setp options ''end'')))
           else hret ())) (
     hseq (hbind (hasOwn options ''endBefore'') (\<lambda>b. if b then
             hbind (getp options ''endBefore'') (\<lambda>v.
             hbind (normalizeKey_h L v) (\<lambda>key.
             hbind (getp options ''reverse'') (\<lambda>rev.
             hbind (if truthy_h P rev then getNextKey_h P L key
                    else getPreviousKey_h P L key) (\<lambda>key'.
             hseq (setp options ''end'' key') (delp options ''endBefore'')))))
           else hret ())) (
     hseq (hbind (hasOwn options ''end'') (\<lambda>b. if \<not> b then
             hbind (getEmptyKey_h L) (setp options ''end'')
           else hret ())) (
     hbind (getp options ''reverse'') (\<lambda>rev. if \<not> truthy_h P rev then
       hbind (getp options ''end'') (\<lambda>e.
       hbind (getMaximumKey_h L) (\<lambda>m.
       hbind (concatKeys_h L e m) (setp options ''end'')))
     else hret ()))))"

definition select_prefix_h :: "layer \<Rightarrow> 'n hval \<Rightarrow> ('n, unit) hm" where
  "select_prefix_h L options =
     hbind (hasOwn options ''prefix'') (\<lambda>b. if b then
       hbind (getp options ''prefix'') (\<lambda>v.
       hbind (normalizeKey_h L v) (\<lambda>prefix.
       hseq (hbind (getp options ''start'') (\<lambda>s.
             hbind (concatKeys_h L prefix s) (setp options ''start''))) (
       hseq (hbind (getp options ''end'') (\<lambda>e.
             hbind (concatKeys_h L prefix e) (setp options ''end''))) (
       delp options ''prefix''))))
     else hret ())"

definition select_swap_h :: "'n platform \<Rightarrow> 'n hval \<Rightarrow> ('n, unit) hm" where
  "select_swap_h P options =
     hbind (getp options ''reverse'') (\<lambda>rev. if truthy_h P rev then
       hbind (getp options ''start'') (\<lambda>tmp.
       hseq (hbind (getp options ''end'') (setp options ''start''))
            (setp options ''end'' tmp))
     else hret ())"

definition normalizeKeySelectors_h ::
  "'n platform \<Rightarrow> layer \<Rightarrow> 'n hval \<Rightarrow> ('n, 'n hval) hm" where
  "normalizeKeySelectors_h P L options =
     hbind (clone options) (\<lambda>options'.
     hseq (select_value_h options') (
     hseq (select_start_h P L options') (
     hseq (select_end_h P L options') (
     hseq (select_prefix_h L options') (
     hseq (select_swap_h P options') (
     hret options'))))))"

text \<open>
  A computation keeps the first \<open>n\<close> cells when, run on a heap that has them, it only
  extends the heap and leaves each of them as it was. A value is fresh for \<open>n\<close> when
  it does not refer to one of these cells.
\<close>

definition fresh :: "nat \<Rightarrow> 'n hval \<Rightarrow> bool" where
  "fresh n v = (case v of HRef a \<Rightarrow> n \<le> a | _ \<Rightarrow> True)"

definition keeps :: "nat \<Rightarrow> ('n, 'a) hm \<Rightarrow> bool" where
  "keeps n m =
     (\<forall>h r h'. n \<le> length h \<longrightarrow> m h = (r, h')
        \<longrightarrow> length h \<le> length h' \<and> (\<forall>i<n. h' ! i = h ! i))"

text \<open>
  How the two models of the code are related. A heap value represents a value when both
  are the same primitive, or the heap value refers to an array cell whose elements
  represent the components. A reference to an object represents an options map when
  each property of the object represents what the map binds the name to.
\<close>

inductive rep :: "'n heap \<Rightarrow> 'n hval \<Rightarrow> 'n jsval \<Rightarrow> bool" for h :: "'n heap" where
  rep_null: "rep h HNull JNull"
| rep_undefined: "rep h HUndefined JUndefined"
| rep_bool: "rep h (HBool b) (JBool b)"
| rep_num: "rep h (HNum n) (JNum n)"
| rep_str: "rep h (HStr s) (JStr s)"
| rep_buf: "rep h (HBuf b) (JBuf b)"
| rep_arr: "a < length h \<Longrightarrow> h ! a = Array xs \<Longrightarrow> list_all2 (rep h) xs js
            \<Longrightarrow> rep h (HRef a) (JArr js)"

definition opts_rep :: "'n heap \<Rightarrow> 'n hval \<Rightarrow> 'n options \<Rightarrow> bool" where
  "opts_rep h v opts =
     (\<exists>ps. lookup h v = Some (Object ps) \<and> (\<forall>p. rel_option (rep h) (map_of ps p) (opts p)))"

text \<open>
  The assertion carried through the normalizer: the copy \<open>obj\<close> represents the current
  options \<open>cur\<close>, and each value read so far still represents what it did.
\<close>

definition holds ::
  "'n hval \<Rightarrow> 'n options \<Rightarrow> ('n hval \<times> 'n jsval) list \<Rightarrow> 'n heap \<Rightarrow> bool" where
  "holds obj cur vs h = (opts_rep h obj cur \<and> (\<forall>(v, j) \<in> set vs. rep h v j))"

text \<open>
  A heap computation simulates a result of the value model from the heaps satisfying
  \<open>I\<close>: it throws the same exception, or returns a value related to the result by
  \<open>R\<close> in the heap it leaves.
\<close>

definition sim ::
  "('n heap \<Rightarrow> bool) \<Rightarrow> ('n, 'a) hm \<Rightarrow> error + 'b \<Rightarrow> ('a \<Rightarrow> 'b \<Rightarrow> 'n heap \<Rightarrow> bool) \<Rightarrow> bool" where
  "sim I m pr R =
     (\<forall>h. I h \<longrightarrow>
        (case pr of
           Inl e \<Rightarrow> (\<exists>h'. m h = (Inl e, h'))
         | Inr y \<Rightarrow> (\<exists>x h'. m h = (Inr x, h') \<and> R x y h')))"

text \<open>A heap holding two configs and their keys.\<close>

definition example_heap :: "int heap" where
  "example_heap =
     [Array [HStr [0x6D]],
      Object [(''startAfter'', HRef 0), (''reverse'', HBool True)],
      Array [HStr [0x61]],
      Object [(''start'', HRef 2), (''prefix'', HRef 2)]]"


text \<open>The configs of the specification's examples.\<close>

definition startAfter_m_reverse :: "'n options" where
  "startAfter_m_reverse = [''startAfter'' \<mapsto> JArr [JStr [0x6D]], ''reverse'' \<mapsto> JBool True]"

definition prefix_a :: "'n options" where
  "prefix_a = [''prefix'' \<mapsto> JArr [JStr [0x61]]]"

definition value_a :: "'n options" where
  "value_a = [''value'' \<mapsto> JStr [0x61]]"

definition value_a_startAfter_b :: "'n options" where
  "value_a_startAfter_b = [''value'' \<mapsto> JStr [0x61], ''startAfter'' \<mapsto> JStr [0x62]]"

definition start_a_startAfter_a :: "'n options" where
  "start_a_startAfter_a = [''start'' \<mapsto> JStr [0x61], ''startAfter'' \<mapsto> JStr [0x61]]"

text \<open>\<^verbatim>\<open>{hasOwnProperty: null, start: 'a', startAfter: 'a'}\<close> hides the inherited method.\<close>

definition hidden_method_start_startAfter :: "'n options" where
  "hidden_method_start_startAfter =
     [''hasOwnProperty'' \<mapsto> JNull, ''start'' \<mapsto> JStr [0x61], ''startAfter'' \<mapsto> JStr [0x61]]"

text \<open>
  The pairs of fields the error taxonomy lists as mutually exclusive, and the pairs the
  code rejects: a \<^verbatim>\<open>value\<close> is also refused next to \<^verbatim>\<open>startAfter\<close> or
  \<^verbatim>\<open>endBefore\<close>.
\<close>

definition listed_conflict :: "'n options \<Rightarrow> bool" where
  "listed_conflict opts =
     (hasOwnProperty opts ''value'' \<and> hasOwnProperty opts ''start''
      \<or> hasOwnProperty opts ''value'' \<and> hasOwnProperty opts ''end''
      \<or> hasOwnProperty opts ''start'' \<and> hasOwnProperty opts ''startAfter''
      \<or> hasOwnProperty opts ''end'' \<and> hasOwnProperty opts ''endBefore'')"

definition selector_conflict :: "'n options \<Rightarrow> bool" where
  "selector_conflict opts =
     (listed_conflict opts
      \<or> hasOwnProperty opts ''value'' \<and> hasOwnProperty opts ''startAfter''
      \<or> hasOwnProperty opts ''value'' \<and> hasOwnProperty opts ''endBefore'')"

section \<open>A model of the external codecs\<close>

text \<open>
  Modelled from the spec: the conversion between strings and buffers, UTF-8, which
  belongs to \<^verbatim>\<open>Buffer\<close> and to the tuple codec and is not in the repository. The
  codecs are external collaborators, known by their contract: the key scheme writes an
  order-preserving byte image, the value scheme a serialized text, and decoding is the
  exact inverse of encoding on the representable values. The definitions of this section
  are one pair of codecs that meets the contract, on the values of the model, whose
  numbers are integers.

  A code unit of the Basic Multilingual Plane is written on one, two or three bytes. A
  surrogate is written as U+FFFD, which is what the library does with an unpaired one: a
  string holding a surrogate does not come back. The characters above U+FFFF (pairs of
  surrogates, four bytes) are outside the model.
\<close>

definition surrogate :: "16 word \<Rightarrow> bool" where
  "surrogate u = (0xD800 \<le> unat u \<and> unat u \<le> 0xDFFF)"

definition utf8_unit :: "16 word \<Rightarrow> bytes" where
  "utf8_unit u =
     (if surrogate u then [0xEF, 0xBF, 0xBD]
      else if unat u < 0x80 then [of_nat (unat u)]
      else if unat u < 0x800 then [of_nat (0xC0 + unat u div 64), of_nat (0x80 + unat u mod 64)]
      else [of_nat (0xE0 + unat u div 4096), of_nat (0x80 + unat u div 64 mod 64),
            of_nat (0x80 + unat u mod 64)])"

definition utf8 :: "jsstring \<Rightarrow> bytes" where
  "utf8 s = concat (map utf8_unit s)"

definition continuation :: "8 word \<Rightarrow> bool" where
  "continuation b = (0x80 \<le> unat b \<and> unat b < 0xC0)"

fun utf8_text :: "bytes \<Rightarrow> jsstring" where
  "utf8_text [] = []"
| "utf8_text (b # r) =
     (if unat b < 0x80 then of_nat (unat b) # utf8_text r
      else if 0xC0 \<le> unat b \<and> unat b < 0xE0 \<and> 1 \<le> length r \<and> continuation (r ! 0) then
        of_nat ((unat b - 0xC0) * 64 + (unat (r ! 0) - 0x80)) # utf8_text (drop 1 r)
      else if 0xE0 \<le> unat b \<and> unat b < 0xF0 \<and> 2 \<le> length r
              \<and> continuation (r ! 0) \<and> continuation (r ! 1) then
        of_nat ((unat b - 0xE0) * 4096 + (unat (r ! 0) - 0x80) * 64 + (unat (r ! 1) - 0x80))
          # utf8_text (drop 2 r)
      else 0xFFFD # utf8_text r)"

text \<open>
  Modelled from the spec: the key scheme of the tuple codec, an order-preserving byte
  image. A value is written as a tag for its kind, the tags in the order of the kinds
  (\<open>kind_rank\<close>), followed by its contents. The bytes of a buffer, and the UTF-8 bytes
  of a string, end with the byte \<open>0x00\<close>, the bytes \<open>0x00\<close> and \<open>0x01\<close> among
  them being written \<open>0x01 0x01\<close> and \<open>0x01 0x02\<close>. The components of an array
  follow one another and end with \<open>0x00\<close>, which is below every tag. An integer has no
  image of a fixed width: under the tag of its sign it is written in unary, as many times
  \<open>0x01\<close> as its absolute value and a last byte, \<open>0x00\<close> from zero up and
  \<open>0x02\<close> below zero, so that the images sort as the numbers do.
\<close>

definition escape_byte :: "8 word \<Rightarrow> bytes" where
  "escape_byte b = (if b = 0 then [1, 1] else if b = 1 then [1, 2] else [b])"

definition terminated :: "bytes \<Rightarrow> bytes" where
  "terminated bs = concat (map escape_byte bs) @ [0]"

definition number_bytes :: "int \<Rightarrow> bytes" where
  "number_bytes n =
     (if n < 0 then 0x41 # replicate (nat (- n)) 1 @ [2]
      else 0x42 # replicate (nat n) 1 @ [0])"

fun tuple_encode :: "int jsval \<Rightarrow> bytes" where
  "tuple_encode JNull = [0x10]"
| "tuple_encode (JBool b) = [if b then 0x21 else 0x20]"
| "tuple_encode (JNum n) = number_bytes n"
| "tuple_encode (JBuf b) = 0x60 # terminated b"
| "tuple_encode (JStr s) = 0x70 # terminated (utf8 s)"
| "tuple_encode (JArr xs) = 0xA0 # concat (map tuple_encode xs) @ [0]"
| "tuple_encode JUndefined = [0xF0]"

text \<open>
  Modelled from the spec: the decoder of the key scheme. \<open>unterminated\<close> reads escaped
  bytes up to the terminator; \<open>tuple_value\<close> reads one value and returns it with the
  bytes that follow, \<open>tuple_items\<close> the components of an array up to its terminator. A
  value takes at least its tag, so the bytes that follow are fewer: the test on the
  lengths only shows the recursion to be well founded. \<open>tuple_decode\<close> accepts a
  buffer that is the image of one value, with nothing after it.
\<close>

fun unterminated :: "bytes \<Rightarrow> (bytes \<times> bytes) option" where
  "unterminated [] = None"
| "unterminated (x # r) =
     (if x = 0 then Some ([], r)
      else if x = 1 then
        (case r of
           [] \<Rightarrow> None
         | y # r' \<Rightarrow>
             if y = 1 then map_option (apfst ((#) 0)) (unterminated r')
             else if y = 2 then map_option (apfst ((#) 1)) (unterminated r')
             else None)
      else map_option (apfst ((#) x)) (unterminated r))"

function (sequential) tuple_value :: "bytes \<Rightarrow> (int jsval \<times> bytes) option"
  and tuple_items :: "bytes \<Rightarrow> (int jsval list \<times> bytes) option" where
  "tuple_value [] = None"
| "tuple_value (t # bs) =
     (if t = 0x10 then Some (JNull, bs)
      else if t = 0x20 then Some (JBool False, bs)
      else if t = 0x21 then Some (JBool True, bs)
      else if t = 0x41 then
        (case dropWhile (\<lambda>b. b = 1) bs of
           [] \<Rightarrow> None
         | c # r \<Rightarrow>
             if c = 2 \<and> takeWhile (\<lambda>b. b = 1) bs \<noteq> []
             then Some (JNum (- int (length (takeWhile (\<lambda>b. b = 1) bs))), r)
             else None)
      else if t = 0x42 then
        (case dropWhile (\<lambda>b. b = 1) bs of
           [] \<Rightarrow> None
         | c # r \<Rightarrow>
             if c = 0 then Some (JNum (int (length (takeWhile (\<lambda>b. b = 1) bs))), r)
             else None)
      else if t = 0x60 then map_option (apfst JBuf) (unterminated bs)
      else if t = 0x70 then map_option (apfst (\<lambda>b. JStr (utf8_text b))) (unterminated bs)
      else if t = 0xA0 then map_option (apfst JArr) (tuple_items bs)
      else if t = 0xF0 then Some (JUndefined, bs)
      else None)"
| "tuple_items [] = None"
| "tuple_items (t # bs) =
     (if t = 0 then Some ([], bs)
      else (case tuple_value (t # bs) of
              None \<Rightarrow> None
            | Some (x, r) \<Rightarrow>
                if length r < length (t # bs)
                then map_option (apfst ((#) x)) (tuple_items r)
                else None))"
  by pat_completeness auto

termination
  by (relation "measure (\<lambda>a. case a of Inl bs \<Rightarrow> 2 * length bs | Inr bs \<Rightarrow> 2 * length bs + 1)")
     auto

definition tuple_decode :: "bytes \<Rightarrow> int jsval option" where
  "tuple_decode bs = (case tuple_value bs of Some (v, []) \<Rightarrow> Some v | _ \<Rightarrow> None)"

text \<open>
  Modelled from the spec: the value scheme, a serialized text, which the source takes
  from \<^verbatim>\<open>JSON.stringify\<close>. \<open>json_text\<close> writes the JSON text of a value: the
  literals, an integer in decimal, a string between quotes with the quote, the backslash
  and the control characters escaped, an array between brackets with commas. Inside an
  array \<^verbatim>\<open>undefined\<close> is written \<^verbatim>\<open>null\<close>; a buffer is written as an object,
  with the fields \<^verbatim>\<open>type\<close> (the string \<^verbatim>\<open>Buffer\<close>) and \<^verbatim>\<open>data\<close> (its bytes).
\<close>

definition hex_digit :: "nat \<Rightarrow> 16 word" where
  "hex_digit n = (if n < 10 then of_nat (48 + n) else of_nat (87 + n))"

definition json_escape :: "16 word \<Rightarrow> jsstring" where
  "json_escape u =
     (if u = 0x22 then [0x5C, 0x22]
      else if u = 0x5C then [0x5C, 0x5C]
      else if u = 0x08 then [0x5C, 0x62]
      else if u = 0x09 then [0x5C, 0x74]
      else if u = 0x0A then [0x5C, 0x6E]
      else if u = 0x0C then [0x5C, 0x66]
      else if u = 0x0D then [0x5C, 0x72]
      else if unat u < 0x20 then
        [0x5C, 0x75, 0x30, 0x30, hex_digit (unat u div 16), hex_digit (unat u mod 16)]
      else [u])"

fun decimal :: "nat \<Rightarrow> jsstring" where
  "decimal n = (if n < 10 then [of_nat (48 + n)] else decimal (n div 10) @ [of_nat (48 + n mod 10)])"

declare decimal.simps [simp del]

fun byte_items_text :: "bytes \<Rightarrow> jsstring" where
  "byte_items_text [] = [0x5D]"
| "byte_items_text [x] = decimal (unat x) @ [0x5D]"
| "byte_items_text (x # y # ys) = decimal (unat x) @ 0x2C # byte_items_text (y # ys)"

fun json_text :: "int jsval \<Rightarrow> jsstring"
  and json_items_text :: "int jsval list \<Rightarrow> jsstring" where
  "json_text JNull = [0x6E, 0x75, 0x6C, 0x6C]"
| "json_text JUndefined = [0x6E, 0x75, 0x6C, 0x6C]"
| "json_text (JBool b) = (if b then [0x74, 0x72, 0x75, 0x65] else [0x66, 0x61, 0x6C, 0x73, 0x65])"
| "json_text (JNum n) = (if n < 0 then 0x2D # decimal (nat (- n)) else decimal (nat n))"
| "json_text (JStr s) = 0x22 # concat (map json_escape s) @ [0x22]"
| "json_text (JBuf b) =
     [0x7B, 0x22, 0x74, 0x79, 0x70, 0x65, 0x22, 0x3A, 0x22, 0x42, 0x75, 0x66, 0x66, 0x65, 0x72,
      0x22, 0x2C, 0x22, 0x64, 0x61, 0x74, 0x61, 0x22, 0x3A, 0x5B] @ byte_items_text b @ [0x7D]"
| "json_text (JArr xs) = 0x5B # json_items_text xs"
| "json_items_text [] = [0x5D]"
| "json_items_text [x] = json_text x @ [0x5D]"
| "json_items_text (x # y # ys) = json_text x @ 0x2C # json_items_text (y # ys)"

text \<open>
  Modelled from the spec: the reader of the value scheme, which the source takes from
  \<^verbatim>\<open>JSON.parse\<close>. It reads the JSON texts of the values of the model, written
  without white space: the literals, the integers (with no leading zero), the strings
  with their escapes, and the arrays. Any other text is refused: an object, a number
  with a fraction or an exponent and a text with white space are outside the model.
  \<open>json_decode\<close> accepts a text that is one value, with nothing after it.
\<close>

definition hex_value :: "16 word \<Rightarrow> nat option" where
  "hex_value c =
     (if 48 \<le> unat c \<and> unat c \<le> 57 then Some (unat c - 48)
      else if 97 \<le> unat c \<and> unat c \<le> 102 then Some (unat c - 87)
      else if 65 \<le> unat c \<and> unat c \<le> 70 then Some (unat c - 55)
      else None)"

definition hex4 :: "jsstring \<Rightarrow> 16 word option" where
  "hex4 s =
     (case map hex_value s of
        [Some a, Some b, Some c, Some d] \<Rightarrow> Some (of_nat (4096 * a + 256 * b + 16 * c + d))
      | _ \<Rightarrow> None)"

definition simple_escape :: "16 word \<Rightarrow> 16 word option" where
  "simple_escape e =
     (if e = 0x22 then Some 0x22
      else if e = 0x5C then Some 0x5C
      else if e = 0x2F then Some 0x2F
      else if e = 0x62 then Some 0x08
      else if e = 0x74 then Some 0x09
      else if e = 0x6E then Some 0x0A
      else if e = 0x66 then Some 0x0C
      else if e = 0x72 then Some 0x0D
      else None)"

definition is_digit :: "16 word \<Rightarrow> bool" where
  "is_digit c = (48 \<le> unat c \<and> unat c \<le> 57)"

definition decimal_value :: "jsstring \<Rightarrow> nat" where
  "decimal_value s = foldl (\<lambda>a c. 10 * a + (unat c - 48)) 0 s"

fun json_chars :: "jsstring \<Rightarrow> (jsstring \<times> jsstring) option" where
  "json_chars [] = None"
| "json_chars (c # s) =
     (if c = 0x22 then Some ([], s)
      else if c = 0x5C then
        (case s of
           [] \<Rightarrow> None
         | e # s' \<Rightarrow>
             if e = 0x75 then
               (if 4 \<le> length s' then
                  (case hex4 (take 4 s') of
                     None \<Rightarrow> None
                   | Some u \<Rightarrow> map_option (apfst ((#) u)) (json_chars (drop 4 s')))
                else None)
             else
               (case simple_escape e of
                  None \<Rightarrow> None
                | Some u \<Rightarrow> map_option (apfst ((#) u)) (json_chars s')))
      else if unat c < 0x20 then None
      else map_option (apfst ((#) c)) (json_chars s))"

function (sequential) json_value :: "jsstring \<Rightarrow> (int jsval \<times> jsstring) option"
  and json_items :: "jsstring \<Rightarrow> (int jsval list \<times> jsstring) option" where
  "json_value [] = None"
| "json_value (c # s) =
     (if is_digit c then
        (if c = 0x30 \<and> takeWhile is_digit s \<noteq> [] then None
         else Some (JNum (int (decimal_value (takeWhile is_digit (c # s)))),
                    dropWhile is_digit (c # s)))
      else if c = 0x2D then
        (if takeWhile is_digit s = [] then None
         else if hd s = 0x30 \<and> takeWhile is_digit (tl s) \<noteq> [] then None
         else Some (JNum (- int (decimal_value (takeWhile is_digit s))), dropWhile is_digit s))
      else if c = 0x6E then
        (if take 3 s = [0x75, 0x6C, 0x6C] then Some (JNull, drop 3 s) else None)
      else if c = 0x74 then
        (if take 3 s = [0x72, 0x75, 0x65] then Some (JBool True, drop 3 s) else None)
      else if c = 0x66 then
        (if take 4 s = [0x61, 0x6C, 0x73, 0x65] then Some (JBool False, drop 4 s) else None)
      else if c = 0x22 then map_option (apfst JStr) (json_chars s)
      else if c = 0x5B then
        (if s \<noteq> [] \<and> hd s = 0x5D then Some (JArr [], tl s)
         else map_option (apfst JArr) (json_items s))
      else None)"
| "json_items s =
     (case json_value s of
        None \<Rightarrow> None
      | Some (x, r) \<Rightarrow>
          (case r of
             [] \<Rightarrow> None
           | d # r' \<Rightarrow>
               if d = 0x5D then Some ([x], r')
               else if d = 0x2C \<and> length r' < length s
               then map_option (apfst ((#) x)) (json_items r')
               else None))"
  by pat_completeness auto

termination
  by (relation "measure (\<lambda>a. case a of Inl s \<Rightarrow> 2 * length s | Inr s \<Rightarrow> 2 * length s + 1)")
     auto

declare json_items.simps [simp del]

definition json_decode :: "jsstring \<Rightarrow> int jsval option" where
  "json_decode s = (case json_value s of Some (v, []) \<Rightarrow> Some v | _ \<Rightarrow> None)"

text \<open>
  \<open>below x y\<close>: \<open>x\<close> sorts before \<open>y\<close> at a position that both have, so that what
  follows the one or the other does not change how they compare.
\<close>

fun below :: "('a::linorder) list \<Rightarrow> 'a list \<Rightarrow> bool" where
  "below (a # x) (b # y) = (a < b \<or> (a = b \<and> below x y))"
| "below x y = False"

text \<open>What may follow a number in a text: nothing, or a character that is not a digit.\<close>

definition stops :: "jsstring \<Rightarrow> bool" where
  "stops rest = (rest = [] \<or> \<not> is_digit (hd rest))"

text \<open>
  Modelled from the spec: the platform that carries the codecs above. Its numbers and
  their arithmetic are those of \<open>micro_platform\<close>. \<^verbatim>\<open>JSON.stringify(undefined)\<close> is
  not a string, and a buffer cannot be made of it.
\<close>

definition codec_platform :: "int platform" where
  "codec_platform = micro_platform \<lparr>
     bytewise_encode := (\<lambda>v. Some (tuple_encode v)),
     bytewise_decode := tuple_decode,
     json_stringify := (\<lambda>v. if v = JUndefined then None else Some (json_text v)),
     json_parse := json_decode,
     utf8_encode := utf8,
     utf8_decode := utf8_text\<rparr>"

text \<open>
  Modelled from the spec: the representable values. A string is representable when it
  holds no surrogate. Under the key scheme every kind of value is representable, the two
  sentinels and the buffers included; under the value scheme \<^verbatim>\<open>undefined\<close> and the
  buffers are not, on their own or inside an array, since the text of the one is that of
  \<^verbatim>\<open>null\<close> and the text of the other that of an object.
\<close>

definition scalar_string :: "jsstring \<Rightarrow> bool" where
  "scalar_string s = list_all (\<lambda>u. \<not> surrogate u) s"

fun representable_key :: "int jsval \<Rightarrow> bool" where
  "representable_key (JStr s) = scalar_string s"
| "representable_key (JArr xs) = list_all representable_key xs"
| "representable_key v = True"

fun representable_value :: "int jsval \<Rightarrow> bool" where
  "representable_value JUndefined = False"
| "representable_value (JBuf b) = False"
| "representable_value (JStr s) = scalar_string s"
| "representable_value (JArr xs) = list_all representable_value xs"
| "representable_value v = True"

section \<open>Properties of the order\<close>

lemma str_less_irrefl: "\<not> str_less s s"
  by (induction s) auto

lemma str_less_total: "str_less a b \<or> a = b \<or> str_less b a"
  by (induction a b rule: str_less.induct) auto

lemma str_less_asym: "str_less a b \<Longrightarrow> \<not> str_less b a"
  by (induction a b rule: str_less.induct) auto

lemma str_less_cases: "\<not> str_less a b \<Longrightarrow> \<not> str_less b a \<Longrightarrow> a = b"
  using str_less_total by blast

lemma str_less_append_same: "str_less (p @ a) (p @ b) = str_less a b"
  by (induction p) auto

lemma str_less_extend: "str_less s (s @ x # xs)"
  by (induction s) auto

lemma kind_rank_0: "kind_rank a = 0 \<longleftrightarrow> a = JNull"
  by (cases a) simp_all

lemma kind_rank_pos: "0 < kind_rank a \<longleftrightarrow> a \<noteq> JNull"
  by (cases a) simp_all

lemma kind_rank_6: "kind_rank a = 6 \<longleftrightarrow> a = JUndefined"
  by (cases a) simp_all

text \<open>Any two components, and any two keys, are comparable, and never both ways.\<close>

lemma order_total:
  "comp_less (a :: 'n::linorder jsval) b \<or> a = b \<or> comp_less b a"
  "key_less (xs :: 'n jsval list) ys \<or> xs = ys \<or> key_less ys xs"
  by (induction a b and xs ys rule: comp_less_key_less.induct)
     (auto simp: kind_rank_0 kind_rank_pos kind_rank_6 dest: str_less_cases)

lemma order_asym:
  "comp_less (a :: 'n::linorder jsval) b \<Longrightarrow> \<not> comp_less b a"
  "key_less (xs :: 'n jsval list) ys \<Longrightarrow> \<not> key_less ys xs"
  by (induction a b and xs ys rule: comp_less_key_less.induct)
     (auto dest: str_less_asym)

text \<open>The order is transitive: with the two lemmas above, a strict linear order.\<close>

lemma str_less_trans: "str_less a b \<Longrightarrow> str_less b c \<Longrightarrow> str_less a c"
proof (induction a b arbitrary: c rule: str_less.induct)
  case (4 x xs y ys)
  then show ?case by (cases c) auto
qed (auto elim: str_less.elims)

lemma key_less_trans_aux:
  assumes "\<And>x b c. x \<in> set xs \<Longrightarrow> comp_less x b \<Longrightarrow> comp_less b c \<Longrightarrow> comp_less x c"
    and "key_less xs ys" and "key_less ys zs"
  shows "key_less xs zs"
  using assms
proof (induction xs arbitrary: ys zs)
  case Nil
  then show ?case by (cases ys; cases zs) simp_all
next
  case (Cons x xs)
  from Cons.prems(2) obtain y ys' where ys: "ys = y # ys'" by (cases ys) simp_all
  from Cons.prems(3) ys obtain z zs' where zs: "zs = z # zs'" by (cases zs) simp_all
  from Cons.prems(2,3) ys zs consider
    (a) "comp_less x y" "comp_less y z" | (b) "comp_less x y" "y = z"
    | (c) "x = y" "comp_less y z" | (d) "x = y" "y = z" "key_less xs ys'" "key_less ys' zs'"
    by auto
  then show ?case
  proof cases
    case a
    with Cons.prems(1) [of x y z] zs show ?thesis by simp
  next
    case d
    from Cons.IH [OF _ d(3,4)] Cons.prems(1) have "key_less xs zs'" by simp
    with d zs show ?thesis by simp
  qed (simp_all add: zs)
qed


lemma comp_less_rank: "comp_less a b \<Longrightarrow> kind_rank a \<le> kind_rank b"
  by (cases a; cases b) simp_all

lemma comp_less_diff_rank: "kind_rank a \<noteq> kind_rank b \<Longrightarrow> comp_less a b = (kind_rank a < kind_rank b)"
  by (cases a; cases b) simp_all


lemma comp_less_trans_step:
  fixes a :: "'n::linorder jsval"
  assumes ab: "comp_less a b" and bc: "comp_less b c"
    and arr: "\<And>xs ys zs. a = JArr xs \<Longrightarrow> b = JArr ys \<Longrightarrow> c = JArr zs
                \<Longrightarrow> key_less xs ys \<Longrightarrow> key_less ys zs \<Longrightarrow> key_less xs zs"
  shows "comp_less a c"
proof (cases "kind_rank a = kind_rank c")
  case False
  with comp_less_rank [OF ab] comp_less_rank [OF bc] have "kind_rank a < kind_rank c" by simp
  then show ?thesis by (simp add: comp_less_diff_rank)
next
  case True
  with comp_less_rank [OF ab] comp_less_rank [OF bc]
  have r: "kind_rank a = kind_rank b" "kind_rank b = kind_rank c" by simp_all
  show ?thesis
  proof (cases a)
    case JNull
    with r ab show ?thesis by (cases b) simp_all
  next
    case JUndefined
    with r ab show ?thesis by (cases b) simp_all
  next
    case (JBool x)
    with r ab bc show ?thesis by (cases b; cases c) auto
  next
    case (JNum x)
    with r ab bc show ?thesis by (cases b; cases c) auto
  next
    case (JStr x)
    with r ab bc show ?thesis by (cases b; cases c) (auto dest: str_less_trans)
  next
    case (JBuf x)
    with r ab bc show ?thesis by (cases b; cases c) (auto dest: str_less_trans)
  next
    case (JArr xs)
    from r JArr obtain ys where b: "b = JArr ys" by (cases b) simp_all
    from r b obtain zs where c: "c = JArr zs" by (cases c) simp_all
    from ab bc JArr b c arr [OF JArr b c] show ?thesis by simp
  qed
qed

lemma comp_less_trans:
  fixes a :: "'n::linorder jsval"
  shows "comp_less a b \<Longrightarrow> comp_less b c \<Longrightarrow> comp_less a c"
proof (induction a arbitrary: b c)
  case (JArr xs)
  have "key_less xs ys \<Longrightarrow> key_less ys zs \<Longrightarrow> key_less xs zs" for ys zs
    using key_less_trans_aux [of xs ys zs] JArr.IH by blast
  with JArr.prems show ?case by (blast intro: comp_less_trans_step)
qed (erule comp_less_trans_step, assumption, simp)+

lemma key_less_trans:
  "key_less (xs :: 'n::linorder key) ys \<Longrightarrow> key_less ys zs \<Longrightarrow> key_less xs zs"
  using key_less_trans_aux [of xs ys zs] comp_less_trans by blast

text \<open>So "at or after" can be read either way: equal or above, or not below.\<close>

lemma key_le_iff_not_less: "key_le a k \<longleftrightarrow> \<not> key_less k a"
  using order_total(2) [of a k] order_asym(2) [of a k] order_asym(2) [of k k]
  by (auto simp: key_le_def)

section \<open>Adjacent strings\<close>

lemma word16_pred_less: "c \<noteq> 0 \<Longrightarrow> c - 1 < (c :: 16 word)"
  using measure_unat [of c] by (simp add: word_less_nat_alt)

text \<open>The successor of a non-empty string is the string followed by U+0001: above it.\<close>

lemma string_next_above:
  assumes "s \<noteq> []" and "getNextKey' P (JStr s) = JStr n"
  shows "str_less s n"
proof -
  from assms(1) have "butlast s @ [last s, 1] = s @ [1]" by simp
  with assms have "n = s @ [1]" by simp
  then show ?thesis by (simp add: str_less_extend)
qed

text \<open>The predecessor is below the string whenever the last code unit is not U+0000.\<close>

lemma string_previous_below:
  assumes "s \<noteq> []" and "last s \<noteq> 0" and "getPreviousKey' P (JStr s) = JStr p"
  shows "str_less p s"
proof -
  have p: "p = butlast s @ [last s - 1, 0xFFFF]" using assms by simp
  have s: "s = butlast s @ [last s]" using assms by simp
  have "str_less (butlast s @ [last s - 1, 0xFFFF]) (butlast s @ [last s])"
    unfolding str_less_append_same using assms(2) by (simp add: word16_pred_less)
  with p s show ?thesis by simp
qed

text \<open>
  C4. For every non-empty string \<open>s\<close>, \<open>previous(s) < s < next(s)\<close> in code-unit order.
  The code breaks this at the string U+0000 (and at every string ending in U+0000):
  \<open>0 - 1\<close> wraps to U+FFFF, so the computed predecessor is U+FFFF U+FFFF, which is not
  below the string but above it.
\<close>

theorem previous_of_nul_string_is_above:
  "getPreviousKey' P (JStr [0]) = JStr [0xFFFF, 0xFFFF]
   \<and> \<not> str_less [0xFFFF, 0xFFFF] [0 :: 16 word]
   \<and> str_less [0 :: 16 word] [0xFFFF, 0xFFFF]"
  by simp

section \<open>Adjacent keys\<close>

text \<open>
  C7. Under the bytewise key encoding, \<open>getPreviousKey\<close> and \<open>getNextKey\<close> return a key
  of the same length whose components, the last one apart, are those of the argument,
  and both return the empty key for the empty key.
\<close>

theorem adjacent_keys_frame:
  assumes "keyEncoding L = ''bytewise''"
  shows "\<exists>p n. getPreviousKey P L k = Inr p \<and> getNextKey P L k = Inr n
           \<and> length p = length k \<and> length n = length k
           \<and> butlast p = butlast k \<and> butlast n = butlast k
           \<and> getPreviousKey P L [] = Inr [] \<and> getNextKey P L [] = Inr []"
  using assms by (simp add: getPreviousKey_def getNextKey_def)

theorem adjacent_keys_frame_witness:
  "keyEncoding default_layer = ''bytewise''
   \<and> getPreviousKey micro_platform default_layer [JBool True, JStr [0x62]]
       = Inr [JBool True, JStr [0x61, 0xFFFF]]
   \<and> getNextKey micro_platform default_layer [JBool True, JStr [0x62]]
       = Inr [JBool True, JStr [0x62, 0x0001]]
   \<and> (\<exists>p n. getPreviousKey micro_platform default_layer [JBool True, JStr [0x62]] = Inr p
          \<and> getNextKey micro_platform default_layer [JBool True, JStr [0x62]] = Inr n
          \<and> butlast p = [JBool True] \<and> butlast n = [JBool True])"
  using adjacent_keys_frame [of default_layer micro_platform "[JBool True, JStr [0x62]]"]
  by (simp add: default_layer_def getPreviousKey_def getNextKey_def)

section \<open>Normalized ranges\<close>

lemmas normalize_defs =
  normalizeKeySelectors_def select_value_def select_start_def select_end_def
  select_prefix_def select_swap_def ebind_def call_hasOwnProperty_def hasOwnProperty_def
  getprop_def getkey_def
  concat_items_def getEmptyKey_def getMaximumKey_def concatKeys_def normalizeKey_def
  getPreviousKey_def getNextKey_def

text \<open>
  C3. Under the bytewise key encoding the empty config is normalized to the full range:
  \<open>start\<close> is the empty key and \<open>end\<close> is the key holding \<^verbatim>\<open>undefined\<close> alone.
\<close>

theorem empty_config_full_range:
  assumes "keyEncoding L = ''bytewise''"
  shows "normalizeKeySelectors P L Map.empty
           = Inr [''start'' \<mapsto> JArr [], ''end'' \<mapsto> JArr [JUndefined]]"
  using assms by (simp add: normalize_defs)

theorem empty_config_full_range_witness:
  "keyEncoding default_layer = ''bytewise''
   \<and> normalizeKeySelectors micro_platform default_layer Map.empty
       = Inr [''start'' \<mapsto> JArr [], ''end'' \<mapsto> JArr [JUndefined]]"
  using empty_config_full_range [of default_layer micro_platform]
  by (simp add: default_layer_def)

text \<open>The normal form of \<^verbatim>\<open>{startAfter: ['m'], reverse: true}\<close>.\<close>

lemma startAfter_m_reverse_result:
  assumes "keyEncoding L = ''bytewise''"
  shows "normalizeKeySelectors P L startAfter_m_reverse =
     Inr [''reverse'' \<mapsto> JBool True, ''start'' \<mapsto> JArr [],
          ''end'' \<mapsto> JArr [JStr [0x6C, 0xFFFF], JUndefined]]"
  using assms unfolding startAfter_m_reverse_def
  by (auto simp add: normalize_defs fun_eq_iff)

lemma str_above_m:
  assumes "str_less [0x6D :: 16 word] s \<or> s = [0x6D]"
  shows "\<not> str_less s [0x6C, 0xFFFF] \<and> s \<noteq> [0x6C, 0xFFFF]"
proof (cases s)
  case Nil
  with assms show ?thesis by simp
next
  case (Cons x xs)
  with assms have "(0x6D :: 16 word) \<le> x" by auto
  then have "\<not> x < 0x6C" and "x \<noteq> 0x6C"
    by (auto simp: word_le_nat_alt word_less_nat_alt)
  with Cons show ?thesis by simp
qed

lemma comp_above_m:
  assumes "comp_less (JStr [0x6D]) c \<or> c = JStr [0x6D]"
  shows "\<not> comp_less c (JStr [0x6C, 0xFFFF]) \<and> c \<noteq> JStr [0x6C, 0xFFFF]"
proof (cases c)
  case (JStr s)
  with assms str_above_m [of s] show ?thesis by simp
qed (use assms in simp_all)

lemma above_m_not_below_end:
  assumes "key_le [JStr [0x6D]] k"
  shows "\<not> key_less k [JStr [0x6C, 0xFFFF], JUndefined]"
proof (cases k)
  case Nil
  with assms show ?thesis by (simp add: key_le_def)
next
  case (Cons c rest)
  with assms have "comp_less (JStr [0x6D]) c \<or> c = JStr [0x6D]"
    by (auto simp: key_le_def)
  from comp_above_m [OF this] Cons show ?thesis by simp
qed

lemma empty_key_least: "key_le [] k"
  by (cases k) (simp_all add: key_le_def)

text \<open>
  C1. Under the bytewise key encoding, \<^verbatim>\<open>{startAfter: ['m'], reverse: true}\<close> is
  normalized to a range that selects no key sorting at or after \<^verbatim>\<open>['m']\<close>, the key
  \<^verbatim>\<open>['m']\<close> included. The range returned is canonical and still marked reversed:
  \<open>start\<close> is the empty key and \<open>end\<close> is \<^verbatim>\<open>['l' + U+FFFF, undefined]\<close>, so it
  selects exactly the keys sorting before that \<open>end\<close>, \<^verbatim>\<open>['l']\<close> among them.
\<close>

theorem startAfter_reverse_excludes_from_m:
  assumes "keyEncoding L = ''bytewise''"
  shows "\<exists>r. normalizeKeySelectors P L startAfter_m_reverse = Inr r
           \<and> r ''start'' = Some (JArr [])
           \<and> r ''end'' = Some (JArr [JStr [0x6C, 0xFFFF], JUndefined])
           \<and> r ''reverse'' = Some (JBool True)
           \<and> (\<forall>k. selects r k \<longleftrightarrow> key_less k [JStr [0x6C, 0xFFFF], JUndefined])
           \<and> (\<forall>k. key_le [JStr [0x6D]] k \<longrightarrow> \<not> selects r k)
           \<and> selects r [JStr [0x6C]]"
proof -
  let ?r = "[''reverse'' \<mapsto> JBool True, ''start'' \<mapsto> JArr [],
             ''end'' \<mapsto> JArr [JStr [0x6C, 0xFFFF], JUndefined]]"
  have sel: "selects ?r k \<longleftrightarrow> key_less k [JStr [0x6C, 0xFFFF], JUndefined]"
    for k :: "'a key"
    by (simp add: selects_def in_range_def empty_key_least)
  have "\<not> selects ?r k" if "key_le [JStr [0x6D]] k" for k :: "'a key"
    using above_m_not_below_end [OF that] by (simp add: sel)
  moreover have "selects ?r [JStr [0x6C] :: 'a jsval]"
    by (simp add: sel)
  moreover have "?r ''start'' = Some (JArr [])"
    "?r ''end'' = Some (JArr [JStr [0x6C, 0xFFFF], JUndefined])"
    "?r ''reverse'' = Some (JBool True)"
    by simp_all
  ultimately show ?thesis
    using startAfter_m_reverse_result [OF assms, of P] sel by blast
qed

theorem startAfter_reverse_excludes_from_m_witness:
  "keyEncoding default_layer = ''bytewise''
   \<and> key_le [JStr [0x6D]] [JStr [0x6D], JNull :: int jsval]
   \<and> (\<exists>r. normalizeKeySelectors micro_platform default_layer startAfter_m_reverse = Inr r
          \<and> r ''start'' = Some (JArr [])
          \<and> r ''end'' = Some (JArr [JStr [0x6C, 0xFFFF], JUndefined])
          \<and> \<not> selects r [JStr [0x6D]] \<and> \<not> selects r [JStr [0x6D], JNull]
          \<and> selects r [JStr [0x6C]])"
proof -
  have L: "keyEncoding default_layer = ''bytewise''" by (simp add: default_layer_def)
  have k: "key_le [JStr [0x6D]] [JStr [0x6D], JNull :: int jsval]" by (simp add: key_le_def)
  have k0: "key_le [JStr [0x6D]] [JStr [0x6D] :: int jsval]" by (simp add: key_le_def)
  from startAfter_reverse_excludes_from_m [OF L, of micro_platform] k k0 L
  show ?thesis by blast
qed

text \<open>The normal form of \<^verbatim>\<open>{prefix: ['a']}\<close>.\<close>

lemma prefix_a_result:
  assumes "keyEncoding L = ''bytewise''"
  shows "normalizeKeySelectors P L prefix_a =
     Inr [''start'' \<mapsto> JArr [JStr [0x61]], ''end'' \<mapsto> JArr [JStr [0x61], JUndefined]]"
  using assms unfolding prefix_a_def
  by (auto simp add: normalize_defs fun_eq_iff)

lemma below_undefined: "key_less rest [JUndefined] \<longleftrightarrow> rest = [] \<or> hd rest \<noteq> JUndefined"
proof (cases rest)
  case Nil
  then show ?thesis by simp
next
  case (Cons c cs)
  have "comp_less c JUndefined \<longleftrightarrow> c \<noteq> JUndefined" by (cases c) simp_all
  moreover have "\<not> key_less cs []" by (cases cs) simp_all
  ultimately show ?thesis using Cons by simp
qed

lemma a_keys_in_range:
  "in_range [JStr [0x61]] [JStr [0x61], JUndefined] (JStr [0x61] # rest)
     \<longleftrightarrow> rest = [] \<or> hd rest \<noteq> JUndefined"
proof -
  have "key_le [JStr [0x61]] (JStr [0x61] # rest)"
    by (cases rest) (simp_all add: key_le_def)
  then show ?thesis by (simp add: in_range_def below_undefined)
qed

lemma b_keys_out_of_range:
  "\<not> in_range [JStr [0x61]] [JStr [0x61], JUndefined] (JStr [0x62] # rest)"
  by (simp add: in_range_def)

text \<open>
  C2, as the code has it. Under the bytewise key encoding \<^verbatim>\<open>{prefix: ['a']}\<close> is
  normalized to \<open>start = ['a']\<close> and \<open>end = ['a', undefined]\<close>. A key
  \<^verbatim>\<open>['a', ...rest]\<close> lies in the range exactly when \<open>rest\<close> is empty or does not begin
  with the maximum sentinel \<^verbatim>\<open>undefined\<close>; no key \<^verbatim>\<open>['b', ...]\<close> lies in it.
\<close>

theorem prefix_a_range:
  assumes "keyEncoding L = ''bytewise''"
  shows "\<exists>r. normalizeKeySelectors P L prefix_a = Inr r
           \<and> r ''start'' = Some (JArr [JStr [0x61]])
           \<and> r ''end'' = Some (JArr [JStr [0x61], JUndefined])
           \<and> (\<forall>rest. selects r (JStr [0x61] # rest) \<longleftrightarrow> rest = [] \<or> hd rest \<noteq> JUndefined)
           \<and> (\<forall>rest. \<not> selects r (JStr [0x62] # rest))"
  using prefix_a_result [OF assms, of P]
  by (simp add: selects_def a_keys_in_range b_keys_out_of_range)

theorem prefix_a_range_witness:
  "keyEncoding default_layer = ''bytewise''
   \<and> (\<exists>r. normalizeKeySelectors micro_platform default_layer prefix_a = Inr r
          \<and> selects r [JStr [0x61]]
          \<and> selects r [JStr [0x61], JStr [0x7A], JUndefined]
          \<and> \<not> selects r [JStr [0x62]])"
proof -
  have L: "keyEncoding default_layer = ''bytewise''" by (simp add: default_layer_def)
  from prefix_a_range [OF L, of micro_platform] obtain r where
    r: "normalizeKeySelectors micro_platform default_layer prefix_a = Inr r"
    and a: "\<And>rest. selects r (JStr [0x61] # rest) \<longleftrightarrow> rest = [] \<or> hd rest \<noteq> JUndefined"
    and b: "\<And>rest. \<not> selects r (JStr [0x62] # rest)"
    by blast
  from a [of "[]"] a [of "[JStr [0x7A], JUndefined]"] b [of "[]"] r L
  show ?thesis by simp
qed

text \<open>
  The claim as stated fails at the key \<^verbatim>\<open>['a', undefined]\<close>: it has the form
  \<^verbatim>\<open>['a', ...anything]\<close>, and it is the exclusive end of the range itself.
\<close>

theorem prefix_a_sentinel_counterexample:
  "normalizeKeySelectors micro_platform default_layer prefix_a
     = Inr [''start'' \<mapsto> JArr [JStr [0x61]], ''end'' \<mapsto> JArr [JStr [0x61], JUndefined]]
   \<and> \<not> selects [''start'' \<mapsto> JArr [JStr [0x61]],
                 ''end'' \<mapsto> JArr [JStr [0x61], JUndefined :: int jsval]]
          [JStr [0x61], JUndefined]"
proof -
  have L: "keyEncoding default_layer = ''bytewise''" by (simp add: default_layer_def)
  show ?thesis using prefix_a_result [OF L, of micro_platform]
    by (simp add: selects_def in_range_def)
qed

section \<open>The stages of the normalizer\<close>

text \<open>
  The method call on a config that inherits the method, and on one that hides it.
\<close>

lemma call_hasOwnProperty_inherited:
  "\<not> hasOwnProperty opts ''hasOwnProperty''
     \<Longrightarrow> call_hasOwnProperty opts p = Inr (hasOwnProperty opts p)"
  by (simp add: call_hasOwnProperty_def)

lemma call_hasOwnProperty_hidden:
  "hasOwnProperty opts ''hasOwnProperty'' \<Longrightarrow> call_hasOwnProperty opts p = Inl JSTypeError"
  by (simp add: call_hasOwnProperty_def)

lemma select_value_cases:
  assumes "\<not> hasOwnProperty opts ''hasOwnProperty''"
  shows "select_value opts =
     (if hasOwnProperty opts ''value''
         \<and> (hasOwnProperty opts ''start'' \<or> hasOwnProperty opts ''end'')
      then Inl InvalidSelector
      else if hasOwnProperty opts ''value''
      then Inr (opts(''start'' \<mapsto> getprop opts ''value'', ''end'' \<mapsto> getprop opts ''value''))
      else Inr opts)"
  using assms by (simp add: select_value_def call_hasOwnProperty_inherited ebind_def)

lemma select_start_cases:
  assumes "keyEncoding L = ''bytewise''" and "\<not> hasOwnProperty opts ''hasOwnProperty''"
  shows "(hasOwnProperty opts ''start'' \<and> hasOwnProperty opts ''startAfter''
            \<and> select_start P L opts = Inl InvalidSelector)
         \<or> (\<not> (hasOwnProperty opts ''start'' \<and> hasOwnProperty opts ''startAfter'')
            \<and> (\<exists>k. select_start P L opts
                       = Inr (opts(''start'' \<mapsto> JArr k, ''startAfter'' := None))))"
  using assms
  by (auto simp add: select_start_def ebind_def call_hasOwnProperty_def hasOwnProperty_def
      getprop_def getkey_def getEmptyKey_def getMaximumKey_def concatKeys_def
      normalizeKey_def getPreviousKey_def getNextKey_def fun_eq_iff)

lemma select_end_cases:
  assumes "keyEncoding L = ''bytewise''" and "\<not> hasOwnProperty opts ''hasOwnProperty''"
  shows "(hasOwnProperty opts ''end'' \<and> hasOwnProperty opts ''endBefore''
            \<and> select_end P L opts = Inl InvalidSelector)
         \<or> (\<not> (hasOwnProperty opts ''end'' \<and> hasOwnProperty opts ''endBefore'')
            \<and> (\<exists>k. select_end P L opts
                       = Inr (opts(''end'' \<mapsto> JArr k, ''endBefore'' := None))))"
  using assms
  by (auto simp add: select_end_def ebind_def call_hasOwnProperty_def hasOwnProperty_def
      getprop_def getkey_def getEmptyKey_def getMaximumKey_def concatKeys_def
      normalizeKey_def getPreviousKey_def getNextKey_def fun_eq_iff)

lemma select_prefix_cases:
  assumes "keyEncoding L = ''bytewise''" and "\<not> hasOwnProperty opts ''hasOwnProperty''"
    and "opts ''start'' = Some (JArr s)" and "opts ''end'' = Some (JArr e)"
  shows "\<exists>s' e'. select_prefix L opts
           = Inr (opts(''start'' \<mapsto> JArr s', ''end'' \<mapsto> JArr e', ''prefix'' := None))"
  using assms
  by (auto simp add: select_prefix_def ebind_def call_hasOwnProperty_def hasOwnProperty_def
      getprop_def concat_items_def concatKeys_def normalizeKey_def fun_eq_iff)

lemma select_swap_cases:
  assumes "opts ''start'' = Some (JArr s)" and "opts ''end'' = Some (JArr e)"
  shows "\<exists>s' e'. select_swap P opts = opts(''start'' \<mapsto> JArr s', ''end'' \<mapsto> JArr e')"
  using assms
  by (auto simp add: select_swap_def getprop_def fun_eq_iff)

text \<open>
  Under the bytewise key encoding, and for a config that inherits \<^verbatim>\<open>hasOwnProperty\<close>,
  the normalizer either rejects the config, exactly when two of its fields conflict, or
  returns the config with \<^verbatim>\<open>start\<close> and \<^verbatim>\<open>end\<close> bound to arrays and \<^verbatim>\<open>startAfter\<close>,
  \<^verbatim>\<open>endBefore\<close> and \<^verbatim>\<open>prefix\<close> unbound. Every other property, \<^verbatim>\<open>value\<close> among them,
  is as it was.
\<close>

lemma normalize_shape:
  assumes L: "keyEncoding L = ''bytewise''"
    and inh: "\<not> hasOwnProperty opts ''hasOwnProperty''"
  shows "(selector_conflict opts \<and> normalizeKeySelectors P L opts = Inl InvalidSelector)
         \<or> (\<not> selector_conflict opts
            \<and> (\<exists>s e. normalizeKeySelectors P L opts
                  = Inr (opts(''start'' \<mapsto> JArr s, ''end'' \<mapsto> JArr e,
                         ''startAfter'' := None, ''endBefore'' := None, ''prefix'' := None))))"
proof (cases "hasOwnProperty opts ''value''
              \<and> (hasOwnProperty opts ''start'' \<or> hasOwnProperty opts ''end'')")
  case True
  then have "select_value opts = Inl InvalidSelector"
    by (simp add: select_value_cases [OF inh])
  with True show ?thesis
    by (auto simp: normalizeKeySelectors_def ebind_def selector_conflict_def listed_conflict_def)
next
  case False
  define o1 where "o1 = (if hasOwnProperty opts ''value''
      then opts(''start'' \<mapsto> getprop opts ''value'', ''end'' \<mapsto> getprop opts ''value'')
      else opts)"
  from False have v: "select_value opts = Inr o1"
    by (simp add: select_value_cases [OF inh] o1_def)
  have h1:
    "hasOwnProperty o1 ''start'' \<longleftrightarrow> hasOwnProperty opts ''start'' \<or> hasOwnProperty opts ''value''"
    "hasOwnProperty o1 ''end'' \<longleftrightarrow> hasOwnProperty opts ''end'' \<or> hasOwnProperty opts ''value''"
    "hasOwnProperty o1 ''startAfter'' \<longleftrightarrow> hasOwnProperty opts ''startAfter''"
    "hasOwnProperty o1 ''endBefore'' \<longleftrightarrow> hasOwnProperty opts ''endBefore''"
    by (auto simp: o1_def hasOwnProperty_def)
  from inh have inh1: "\<not> hasOwnProperty o1 ''hasOwnProperty''"
    by (simp add: o1_def hasOwnProperty_def)
  have f1: "p \<noteq> ''start'' \<Longrightarrow> p \<noteq> ''end'' \<Longrightarrow> o1 p = opts p" for p
    by (simp add: o1_def)
  from select_start_cases [OF L inh1, of P] show ?thesis
  proof (elim disjE conjE exE)
    assume "hasOwnProperty o1 ''start''" "hasOwnProperty o1 ''startAfter''"
      and "select_start P L o1 = Inl InvalidSelector"
    with v h1 False show ?thesis
      by (auto simp: normalizeKeySelectors_def ebind_def selector_conflict_def
          listed_conflict_def)
  next
    fix k
    define o2 where "o2 = o1(''start'' \<mapsto> JArr k, ''startAfter'' := None)"
    assume ns: "\<not> (hasOwnProperty o1 ''start'' \<and> hasOwnProperty o1 ''startAfter'')"
      and "select_start P L o1 = Inr (o1(''start'' \<mapsto> JArr k, ''startAfter'' := None))"
    then have s: "select_start P L o1 = Inr o2" by (simp add: o2_def)
    have h2: "hasOwnProperty o2 ''end'' \<longleftrightarrow> hasOwnProperty o1 ''end''"
      "hasOwnProperty o2 ''endBefore'' \<longleftrightarrow> hasOwnProperty o1 ''endBefore''"
      by (auto simp: o2_def hasOwnProperty_def)
    from inh1 have inh2: "\<not> hasOwnProperty o2 ''hasOwnProperty''"
      by (simp add: o2_def hasOwnProperty_def)
    from select_end_cases [OF L inh2, of P] show ?thesis
    proof (elim disjE conjE exE)
      assume "hasOwnProperty o2 ''end''" "hasOwnProperty o2 ''endBefore''"
        and "select_end P L o2 = Inl InvalidSelector"
      with v s h1 h2 False show ?thesis
        by (auto simp: normalizeKeySelectors_def ebind_def selector_conflict_def
            listed_conflict_def)
    next
      fix k'
      define o3 where "o3 = o2(''end'' \<mapsto> JArr k', ''endBefore'' := None)"
      assume ne: "\<not> (hasOwnProperty o2 ''end'' \<and> hasOwnProperty o2 ''endBefore'')"
        and "select_end P L o2 = Inr (o2(''end'' \<mapsto> JArr k', ''endBefore'' := None))"
      then have e: "select_end P L o2 = Inr o3" by (simp add: o3_def)
      have o3s: "o3 ''start'' = Some (JArr k)" and o3e: "o3 ''end'' = Some (JArr k')"
        by (simp_all add: o3_def o2_def)
      from inh2 have inh3: "\<not> hasOwnProperty o3 ''hasOwnProperty''"
        by (simp add: o3_def hasOwnProperty_def)
      from select_prefix_cases [OF L inh3 o3s o3e] obtain s' e' where
        p: "select_prefix L o3
              = Inr (o3(''start'' \<mapsto> JArr s', ''end'' \<mapsto> JArr e', ''prefix'' := None))"
        by blast
      define o4 where
        "o4 = o3(''start'' \<mapsto> JArr s', ''end'' \<mapsto> JArr e', ''prefix'' := None)"
      have o4s: "o4 ''start'' = Some (JArr s')" and o4e: "o4 ''end'' = Some (JArr e')"
        by (simp_all add: o4_def)
      from select_swap_cases [OF o4s o4e, of P] obtain s'' e'' where
        w: "select_swap P o4 = o4(''start'' \<mapsto> JArr s'', ''end'' \<mapsto> JArr e'')"
        by blast
      have "o4(''start'' \<mapsto> JArr s'', ''end'' \<mapsto> JArr e'')
              = opts(''start'' \<mapsto> JArr s'', ''end'' \<mapsto> JArr e'',
                     ''startAfter'' := None, ''endBefore'' := None, ''prefix'' := None)"
        by (auto simp: fun_eq_iff o4_def o3_def o2_def f1)
      with v s e p w have "normalizeKeySelectors P L opts
              = Inr (opts(''start'' \<mapsto> JArr s'', ''end'' \<mapsto> JArr e'',
                     ''startAfter'' := None, ''endBefore'' := None, ''prefix'' := None))"
        by (simp add: normalizeKeySelectors_def ebind_def o4_def)
      moreover from False ns ne h1 h2 have "\<not> selector_conflict opts"
        by (auto simp: selector_conflict_def listed_conflict_def)
      ultimately show ?thesis by blast
    qed
  qed
qed

text \<open>
  Under any other key encoding the normalizer always throws: the selector error where
  it meets a conflict first, the encoding error otherwise.
\<close>

lemma select_start_unimplemented:
  assumes "keyEncoding L \<noteq> ''bytewise''" and "\<not> hasOwnProperty opts ''hasOwnProperty''"
  shows "select_start P L opts = Inl InvalidSelector
         \<or> select_start P L opts = Inl UnimplementedEncoding"
  using assms
  by (simp add: select_start_def ebind_def normalizeKey_def getEmptyKey_def
      call_hasOwnProperty_inherited)

lemma normalize_unimplemented:
  assumes "keyEncoding L \<noteq> ''bytewise''" and inh: "\<not> hasOwnProperty opts ''hasOwnProperty''"
  shows "normalizeKeySelectors P L opts = Inl InvalidSelector
         \<or> normalizeKeySelectors P L opts = Inl UnimplementedEncoding"
proof (cases "select_value opts")
  case (Inl e)
  with select_value_cases [OF inh] have "e = InvalidSelector"
    by (auto split: if_splits)
  with Inl show ?thesis by (simp add: normalizeKeySelectors_def ebind_def)
next
  case (Inr o1)
  with select_value_cases [OF inh] inh have "\<not> hasOwnProperty o1 ''hasOwnProperty''"
    by (auto simp: hasOwnProperty_def split: if_splits)
  from select_start_unimplemented [OF assms(1) this, of P] Inr show ?thesis
    by (auto simp: normalizeKeySelectors_def ebind_def)
qed

text \<open>
  A config that hides the inherited method is rejected by the first statement, whatever
  else it holds and whatever the key encoding.
\<close>

lemma normalize_hidden_method:
  assumes "hasOwnProperty opts ''hasOwnProperty''"
  shows "normalizeKeySelectors P L opts = Inl JSTypeError"
  using assms
  by (simp add: normalizeKeySelectors_def select_value_def call_hasOwnProperty_hidden
      ebind_def)

text \<open>
  That is the only \<^verbatim>\<open>TypeError\<close> of the normalizer: reading \<^verbatim>\<open>options.start\<close> or
  \<^verbatim>\<open>options.end\<close> back never finds a non-array.
\<close>

lemma normalizeKeySelectors_type_error_iff:
  "normalizeKeySelectors P L opts = Inl JSTypeError
     \<longleftrightarrow> hasOwnProperty opts ''hasOwnProperty''"
proof (cases "hasOwnProperty opts ''hasOwnProperty''")
  case True
  then show ?thesis by (simp add: normalize_hidden_method)
next
  case False
  with normalize_shape [of L opts P] normalize_unimplemented [of L opts P] show ?thesis
    by (cases "keyEncoding L = ''bytewise''") auto
qed

text \<open>
  C5, as the code has it. Under the bytewise key encoding, and for a config that has no
  property named \<^verbatim>\<open>hasOwnProperty\<close> of its own, \<open>normalizeKeySelectors\<close> fails with the
  selector error exactly when the config supplies \<^verbatim>\<open>value\<close> together with \<^verbatim>\<open>start\<close>,
  \<^verbatim>\<open>end\<close>, \<^verbatim>\<open>startAfter\<close> or \<^verbatim>\<open>endBefore\<close>, or \<^verbatim>\<open>start\<close> together with
  \<^verbatim>\<open>startAfter\<close>, or \<^verbatim>\<open>end\<close> together with \<^verbatim>\<open>endBefore\<close>; and it fails with no other
  error.
\<close>

theorem invalid_selector_iff_conflict:
  assumes "keyEncoding L = ''bytewise''" and "\<not> hasOwnProperty opts ''hasOwnProperty''"
  shows "(normalizeKeySelectors P L opts = Inl InvalidSelector \<longleftrightarrow> selector_conflict opts)
         \<and> (\<forall>e. normalizeKeySelectors P L opts = Inl e \<longrightarrow> e = InvalidSelector)"
  using normalize_shape [OF assms, of P] by auto

theorem invalid_selector_iff_conflict_witness:
  "keyEncoding default_layer = ''bytewise''
   \<and> \<not> hasOwnProperty (start_a_startAfter_a :: int options) ''hasOwnProperty''
   \<and> selector_conflict (start_a_startAfter_a :: int options)
   \<and> normalizeKeySelectors micro_platform default_layer start_a_startAfter_a
       = Inl InvalidSelector
   \<and> \<not> hasOwnProperty (prefix_a :: int options) ''hasOwnProperty''
   \<and> \<not> selector_conflict (prefix_a :: int options)
   \<and> normalizeKeySelectors micro_platform default_layer prefix_a \<noteq> Inl InvalidSelector"
proof -
  have L: "keyEncoding default_layer = ''bytewise''" by (simp add: default_layer_def)
  have i: "\<not> hasOwnProperty (start_a_startAfter_a :: int options) ''hasOwnProperty''"
    by (simp add: start_a_startAfter_a_def hasOwnProperty_def)
  have j: "\<not> hasOwnProperty (prefix_a :: int options) ''hasOwnProperty''"
    by (simp add: prefix_a_def hasOwnProperty_def)
  have c: "selector_conflict (start_a_startAfter_a :: int options)"
    by (simp add: selector_conflict_def listed_conflict_def start_a_startAfter_a_def
        hasOwnProperty_def)
  have n: "\<not> selector_conflict (prefix_a :: int options)"
    by (simp add: selector_conflict_def listed_conflict_def prefix_a_def hasOwnProperty_def)
  from invalid_selector_iff_conflict [OF L i, of micro_platform]
    invalid_selector_iff_conflict [OF L j, of micro_platform] L i j c n
  show ?thesis by simp
qed

text \<open>
  The claim as stated fails at \<^verbatim>\<open>{value: 'a', startAfter: 'b'}\<close>: none of the four
  listed pairs is supplied, and the normalizer throws the selector error. It fails again
  at \<^verbatim>\<open>{hasOwnProperty: null, start: 'a', startAfter: 'a'}\<close>: a listed pair is supplied,
  and the normalizer throws a \<^verbatim>\<open>TypeError\<close>, not the selector error.
\<close>

theorem value_with_startAfter_counterexample:
  "\<not> listed_conflict (value_a_startAfter_b :: int options)
   \<and> normalizeKeySelectors micro_platform default_layer value_a_startAfter_b
       = Inl InvalidSelector
   \<and> listed_conflict (hidden_method_start_startAfter :: int options)
   \<and> normalizeKeySelectors micro_platform default_layer hidden_method_start_startAfter
       = Inl JSTypeError"
  by (simp add: listed_conflict_def value_a_startAfter_b_def
      hidden_method_start_startAfter_def hasOwnProperty_def normalize_defs)

text \<open>
  What the returned object holds, for a config the normalizer accepts: \<^verbatim>\<open>start\<close> and
  \<^verbatim>\<open>end\<close> are bound, \<^verbatim>\<open>startAfter\<close>, \<^verbatim>\<open>endBefore\<close> and \<^verbatim>\<open>prefix\<close> are not, and
  \<^verbatim>\<open>value\<close> is bound exactly when the config bound it.
\<close>

lemma normalized_fields:
  assumes "keyEncoding L = ''bytewise''" and "normalizeKeySelectors P L opts = Inr r"
  shows "hasOwnProperty r ''start'' \<and> hasOwnProperty r ''end''
         \<and> \<not> hasOwnProperty r ''startAfter'' \<and> \<not> hasOwnProperty r ''endBefore''
         \<and> \<not> hasOwnProperty r ''prefix''
         \<and> r ''value'' = opts ''value'' \<and> r ''reverse'' = opts ''reverse''"
proof -
  from assms(2) normalize_hidden_method [of opts P L]
  have "\<not> hasOwnProperty opts ''hasOwnProperty''" by auto
  from normalize_shape [OF assms(1) this, of P] assms(2) show ?thesis
    by (auto simp: hasOwnProperty_def)
qed

text \<open>
  C6. The object returned for a valid config holds \<^verbatim>\<open>start\<close>, \<^verbatim>\<open>end\<close> and
  \<^verbatim>\<open>reverse\<close> only; \<^verbatim>\<open>value\<close>, \<^verbatim>\<open>startAfter\<close>, \<^verbatim>\<open>endBefore\<close> and \<^verbatim>\<open>prefix\<close> are
  absent from it. The code deletes \<^verbatim>\<open>startAfter\<close>, \<^verbatim>\<open>endBefore\<close> and \<^verbatim>\<open>prefix\<close> and
  leaves \<^verbatim>\<open>value\<close> in place: for \<^verbatim>\<open>{value: 'a'}\<close> the result still has it.
\<close>

theorem value_is_not_removed:
  "normalizeKeySelectors micro_platform default_layer value_a
     = Inr [''value'' \<mapsto> JStr [0x61], ''start'' \<mapsto> JArr [JStr [0x61]],
            ''end'' \<mapsto> JArr [JStr [0x61], JUndefined]]
   \<and> hasOwnProperty [''value'' \<mapsto> JStr [0x61], ''start'' \<mapsto> JArr [JStr [0x61]],
                      ''end'' \<mapsto> JArr [JStr [0x61], JUndefined :: int jsval]] ''value''"
  by (simp add: value_a_def default_layer_def normalize_defs hasOwnProperty_def)

section \<open>Record keys and the codec\<close>

text \<open>The guard of \<open>encodeKey\<close> is \<^verbatim>\<open>!key\<close>, the guard of \<open>decodeKey\<close> likewise.\<close>

lemma encodeKey_InvalidKey_iff: "encodeKey P L k = Inl InvalidKey \<longleftrightarrow> \<not> truthy P k"
  by (auto simp: encodeKey_def encode_def split: option.splits)

lemma decodeKey_InvalidKey_iff: "decodeKey P L k = Inl InvalidKey \<longleftrightarrow> k = None"
  by (auto simp: decodeKey_def decode_def split: option.splits)

lemma encodeKey_accepts_empty_array: "encodeKey P L (JArr []) \<noteq> Inl InvalidKey"
  by (simp add: encodeKey_InvalidKey_iff)

lemma decodeKey_accepts_empty_buffer: "decodeKey P L (Some []) \<noteq> Inl InvalidKey"
  by (simp add: decodeKey_InvalidKey_iff)

text \<open>
  C9. \<open>encodeKey\<close> and \<open>decodeKey\<close> fail with the key error if and only if the key is
  empty, null or absent. The code's test is \<^verbatim>\<open>!key\<close>, which also rejects the keys
  \<^verbatim>\<open>false\<close>, \<^verbatim>\<open>0\<close> and \<^verbatim>\<open>NaN\<close>: each is present and not empty.
\<close>

theorem encodeKey_rejects_false:
  "encodeKey P L (JBool False) = Inl InvalidKey
   \<and> encodeKey micro_platform default_layer (JNum 0) = Inl InvalidKey"
  by (simp add: encodeKey_def micro_platform_def)

text \<open>Whatever the codec, \<^verbatim>\<open>null\<close> goes in and \<^verbatim>\<open>undefined\<close> comes out.\<close>

lemma null_value_becomes_undefined:
  "encodeValue P L JNull = Inr None \<and> decodeValue P L None = Inr JUndefined"
  by (simp add: encodeValue_def decodeValue_def)

section \<open>The round trip of the codecs\<close>

text \<open>UTF-8 gives back every code unit that is not a surrogate.\<close>

lemma sextets: "4096 * (x div 4096) + 64 * (x div 64 mod 64) + x mod 64 = (x :: nat)"
proof -
  define z p q r where "z = x div 64" and "p = x div 4096" and "q = x div 64 mod 64"
    and "r = x mod 64"
  have "x div 4096 = x div 64 div 64"
    by (simp only: div_mult2_eq [symmetric]) simp
  then have pz: "p = z div 64" by (simp only: p_def z_def)
  have "64 * (z div 64) + z mod 64 = z" "64 * (x div 64) + x mod 64 = x"
    by (rule mult_div_mod_eq)+
  then have "64 * p + q = z" "64 * z + r = x"
    by (simp_all only: pz q_def r_def z_def [symmetric])
  then have "4096 * p + 64 * q + r = x" by linarith
  then show ?thesis by (simp only: p_def q_def r_def)
qed

lemma unat_byte: "n < 256 \<Longrightarrow> unat (of_nat n :: 8 word) = n"
  by (simp add: unat_of_nat)

lemma utf8_text_unit:
  assumes "\<not> surrogate u"
  shows "utf8_text (utf8_unit u @ rest) = u # utf8_text rest"
proof -
  let ?n = "unat u"
  have n: "?n < 65536" using unsigned_less [of u] by simp
  have un: "(of_nat ?n :: 16 word) = u" by simp
  consider "?n < 128" | "128 \<le> ?n" "?n < 2048" | "2048 \<le> ?n" by linarith
  then show ?thesis
  proof cases
    case 1
    then have "unat (of_nat ?n :: 8 word) = ?n" by (intro unat_byte) simp
    with 1 assms un show ?thesis by (simp add: utf8_unit_def del: of_nat_unat)
  next
    case 2
    let ?a = "192 + ?n div 64" and ?b = "128 + ?n mod 64"
    from 2 have a: "unat (of_nat ?a :: 8 word) = ?a" and b: "unat (of_nat ?b :: 8 word) = ?b"
      by (simp_all only: unat_byte)
    have "?n div 64 * 64 + ?n mod 64 = ?n" by simp
    with 2 assms a b un show ?thesis
      by (simp add: utf8_unit_def continuation_def del: of_nat_add of_nat_unat)
  next
    case 3
    let ?a = "224 + ?n div 4096" and ?b = "128 + ?n div 64 mod 64" and ?c = "128 + ?n mod 64"
    from n have "?n div 4096 < 16" by simp
    then have a: "unat (of_nat ?a :: 8 word) = ?a" by (simp only: unat_byte)
    have b: "unat (of_nat ?b :: 8 word) = ?b" and c: "unat (of_nat ?c :: 8 word) = ?c"
      by (simp_all only: unat_byte)
    have "?n div 4096 * 4096 + ?n div 64 mod 64 * 64 + ?n mod 64 = ?n"
      using sextets [of ?n] by (simp add: mult.commute)
    with 3 assms a b c un \<open>?n div 4096 < 16\<close> show ?thesis
      by (simp add: utf8_unit_def continuation_def del: of_nat_add of_nat_unat)
  qed
qed

lemma utf8_text_utf8:
  "list_all (\<lambda>u. \<not> surrogate u) s \<Longrightarrow> utf8_text (utf8 s @ rest) = s @ utf8_text rest"
  by (induction s) (simp_all add: utf8_def utf8_text_unit)


text \<open>The key scheme: what \<open>tuple_encode\<close> writes, \<open>tuple_value\<close> reads back.\<close>

lemma unterminated_terminated: "unterminated (terminated bs @ rest) = Some (bs, rest)"
  by (induction bs) (simp_all add: terminated_def escape_byte_def)

lemma take_ones:
  "c \<noteq> 1 \<Longrightarrow> takeWhile (\<lambda>b. b = (1 :: 8 word)) (replicate n 1 @ c # rest) = replicate n 1"
  by (induction n) simp_all

lemma drop_ones:
  "c \<noteq> 1 \<Longrightarrow> dropWhile (\<lambda>b. b = (1 :: 8 word)) (replicate n 1 @ c # rest) = c # rest"
  by (induction n) simp_all

lemma tuple_encode_tag: "\<exists>t bs. tuple_encode x = t # bs \<and> t \<noteq> 0"
  by (cases x) (simp_all add: number_bytes_def)

lemma tuple_value_encode:
  "representable_key v \<Longrightarrow> tuple_value (tuple_encode v @ rest) = Some (v, rest)"
proof (induction v arbitrary: rest)
  case (JArr xs)
  have "tuple_items (concat (map tuple_encode xs) @ 0 # rest) = Some (xs, rest)"
    using JArr
  proof (induction xs)
    case Nil
    then show ?case by simp
  next
    case (Cons x xs)
    from tuple_encode_tag [of x] obtain t bs where e: "tuple_encode x = t # bs" and t: "t \<noteq> 0"
      by blast
    from Cons.prems have "representable_key x" by simp
    with Cons.prems(1) [of x] have
      "tuple_value (tuple_encode x @ concat (map tuple_encode xs) @ 0 # rest)
         = Some (x, concat (map tuple_encode xs) @ 0 # rest)"
      by simp
    with e have v: "tuple_value (t # bs @ concat (map tuple_encode xs) @ 0 # rest)
         = Some (x, concat (map tuple_encode xs) @ 0 # rest)"
      by simp
    from Cons have "tuple_items (concat (map tuple_encode xs) @ 0 # rest) = Some (xs, rest)"
      by simp
    with v e t show ?case by simp
  qed
  then show ?case by simp
next
  case (JStr s)
  then have "utf8_text (utf8 s) = s"
    using utf8_text_utf8 [of s "[]"] by (simp add: scalar_string_def)
  then show ?case by (simp add: unterminated_terminated)
qed (simp_all add: number_bytes_def take_ones drop_ones unterminated_terminated)

lemma tuple_decode_encode: "representable_key v \<Longrightarrow> tuple_decode (tuple_encode v) = Some v"
  using tuple_value_encode [of v "[]"] by (simp add: tuple_decode_def)

text \<open>The value scheme: hexadecimal and decimal digits, then strings and numbers.\<close>

lemma unat_48: "n < 10 \<Longrightarrow> unat (48 + of_nat n :: 16 word) = 48 + n"
  by (simp add: unat_word_ariths unat_of_nat)

lemma unat_87: "n < 16 \<Longrightarrow> unat (87 + of_nat n :: 16 word) = 87 + n"
  by (simp add: unat_word_ariths unat_of_nat)

lemma hex_value_digit: "n < 16 \<Longrightarrow> hex_value (hex_digit n) = Some n"
  by (cases "n < 10") (simp_all add: hex_value_def hex_digit_def unat_48 unat_87)

lemma hex4_control:
  assumes "unat u < 32"
  shows "hex4 [0x30, 0x30, hex_digit (unat u div 16), hex_digit (unat u mod 16)]
           = Some (u :: 16 word)"
proof -
  from assms have "unat u div 16 < 16" by simp
  moreover have "hex_value 0x30 = Some 0" by (simp add: hex_value_def)
  ultimately show ?thesis
    by (simp add: hex4_def hex_value_digit)
qed

lemma json_chars_escape:
  "json_chars (json_escape u @ rest) = map_option (apfst ((#) u)) (json_chars rest)"
proof -
  consider "u \<in> {0x22, 0x5C, 0x08, 0x09, 0x0A, 0x0C, 0x0D}"
    | "u \<notin> {0x22, 0x5C, 0x08, 0x09, 0x0A, 0x0C, 0x0D}" "unat u < 32"
    | "u \<notin> {0x22, 0x5C, 0x08, 0x09, 0x0A, 0x0C, 0x0D}" "\<not> unat u < 32"
    by blast
  then show ?thesis
  proof cases
    case 1
    then show ?thesis by (auto simp: json_escape_def simple_escape_def)
  next
    case 2
    then show ?thesis by (simp add: json_escape_def hex4_control)
  next
    case 3
    then show ?thesis by (simp add: json_escape_def)
  qed
qed

lemma json_chars_string:
  "json_chars (concat (map json_escape s) @ 0x22 # rest) = Some (s, rest)"
  by (induction s) (simp_all add: json_chars_escape)

lemma decimal_value_snoc: "decimal_value (s @ [c]) = 10 * decimal_value s + (unat c - 48)"
  by (simp add: decimal_value_def)

lemma decimal_value_decimal: "decimal_value (decimal n) = n"
proof (induction n rule: decimal.induct)
  case (1 n)
  show ?case
  proof (cases "n < 10")
    case True
    then show ?thesis by (simp add: decimal.simps [of n] decimal_value_def unat_48)
  next
    case False
    with 1 show ?thesis
      by (simp add: decimal.simps [of n] decimal_value_snoc unat_48)
  qed
qed

lemma decimal_digits: "c \<in> set (decimal n) \<Longrightarrow> is_digit c"
proof (induction n rule: decimal.induct)
  case (1 n)
  have d: "is_digit (48 + of_nat k)" if "k < 10" for k
    using that by (simp add: is_digit_def unat_48)
  from 1 show ?case
    by (cases "n < 10") (auto simp: decimal.simps [of n] d)
qed

lemma decimal_not_empty: "decimal n \<noteq> []"
  by (simp add: decimal.simps [of n])

lemma decimal_leading_zero: "decimal n = 0x30 # s \<Longrightarrow> s = []"
proof (induction n arbitrary: s rule: decimal.induct)
  case (1 n)
  show ?case
  proof (cases "n < 10")
    case True
    with 1(2) show ?thesis by (simp add: decimal.simps [of n])
  next
    case False
    with 1(2) have e: "decimal (n div 10) @ [of_nat (48 + n mod 10)] = 0x30 # s"
      by (simp add: decimal.simps [of n])
    with decimal_not_empty [of "n div 10"] obtain s' where d: "decimal (n div 10) = 0x30 # s'"
      by (cases "decimal (n div 10)") auto
    from 1(1) [OF False d] d have "decimal (n div 10) = [0x30]" by simp
    then have "decimal_value (decimal (n div 10)) = 0" by (simp add: decimal_value_def)
    with False show ?thesis by (simp add: decimal_value_decimal)
  qed
qed

lemma take_stops: "stops rest \<Longrightarrow> takeWhile is_digit rest = []"
  by (cases rest) (simp_all add: stops_def)

lemma drop_stops: "stops rest \<Longrightarrow> dropWhile is_digit rest = rest"
  by (cases rest) (simp_all add: stops_def)

lemma take_decimal: "stops rest \<Longrightarrow> takeWhile is_digit (decimal n @ rest) = decimal n"
  using takeWhile_append2 [of "decimal n" is_digit rest]
  by (simp add: decimal_digits take_stops)

lemma drop_decimal: "stops rest \<Longrightarrow> dropWhile is_digit (decimal n @ rest) = rest"
  using dropWhile_append2 [of "decimal n" is_digit rest]
  by (simp add: decimal_digits drop_stops)

lemma digit_head: "\<exists>c s. decimal n = c # s \<and> is_digit c"
  using decimal_not_empty [of n] decimal_digits [of _ n] by (cases "decimal n") auto

lemma no_leading_zero:
  assumes "stops rest" and "decimal n = c # s"
  shows "\<not> (c = 0x30 \<and> takeWhile is_digit (s @ rest) \<noteq> [])"
  using assms decimal_leading_zero [of n s] by (auto simp: take_stops)

lemma json_number:
  assumes "stops rest"
  shows "json_value (decimal n @ rest) = Some (JNum (int n), rest)"
proof -
  from digit_head [of n] obtain c s where d: "decimal n = c # s" and c: "is_digit c" by blast
  from take_decimal [OF assms, of n] drop_decimal [OF assms, of n] d
  have "takeWhile is_digit (c # s @ rest) = decimal n" "dropWhile is_digit (c # s @ rest) = rest"
    by simp_all
  moreover from d decimal_value_decimal [of n] have "decimal_value (c # s) = n" by simp
  moreover note no_leading_zero [OF assms d]
  ultimately show ?thesis using d c
    by (simp only: append_Cons json_value.simps if_True if_False)
qed

lemma not_digit_minus: "\<not> is_digit 0x2D"
  by (simp add: is_digit_def)

lemma json_negative:
  assumes "stops rest"
  shows "json_value (0x2D # decimal n @ rest) = Some (JNum (- int n), rest)"
proof -
  from digit_head [of n] obtain c s where d: "decimal n = c # s" by blast
  from take_decimal [OF assms, of n] decimal_not_empty [of n]
  have "takeWhile is_digit (decimal n @ rest) \<noteq> []" by simp
  moreover from no_leading_zero [OF assms d] d
  have "\<not> (hd (decimal n @ rest) = 0x30 \<and> takeWhile is_digit (tl (decimal n @ rest)) \<noteq> [])"
    by simp
  ultimately show ?thesis
    using take_decimal [OF assms, of n] drop_decimal [OF assms, of n]
    by (simp only: json_value.simps not_digit_minus if_False if_True refl decimal_value_decimal)
qed

text \<open>What \<open>json_text\<close> writes for a representable value, \<open>json_value\<close> reads back.\<close>

lemma json_text_head:
  assumes "representable_value v"
  shows "\<exists>c s. json_text v = c # s \<and> c \<noteq> 0x5D"
proof (cases v)
  case (JNum n)
  from digit_head [of "nat n"] obtain c s where "decimal (nat n) = c # s" "is_digit c" by blast
  with JNum show ?thesis by (auto simp: is_digit_def)
qed (use assms in auto)

lemma stops_bracket: "stops (0x5D # r)" and stops_comma: "stops (0x2C # r)"
  by (simp_all add: stops_def is_digit_def)

lemma json_value_text:
  "representable_value v \<Longrightarrow> stops rest
     \<Longrightarrow> json_value (json_text v @ rest) = Some (v, rest)"
  "list_all representable_value xs \<Longrightarrow> xs \<noteq> []
     \<Longrightarrow> json_items (json_items_text xs @ rest') = Some (xs, rest')"
proof (induction v and xs arbitrary: rest and rest' rule: json_text_json_items_text.induct)
  case (4 n)
  with json_number [of rest "nat n"] json_negative [of rest "nat (- n)"] show ?case
    by (cases "n < 0") simp_all
next
  case (7 xs)
  show ?case
  proof (cases xs)
    case Nil
    then show ?thesis by (simp add: is_digit_def)
  next
    case (Cons y ys)
    with 7 have "json_items (json_items_text xs @ rest) = Some (xs, rest)" by simp
    moreover from 7 Cons json_text_head [of y] obtain c s where
      "json_items_text xs = c # s" "c \<noteq> 0x5D"
      by (cases ys) auto
    ultimately show ?thesis by (simp add: is_digit_def)
  qed
next
  case (9 x)
  then have "json_value (json_text x @ 0x5D # rest') = Some (x, 0x5D # rest')"
    by (simp add: stops_bracket)
  then show ?case by (simp add: json_items.simps [of "json_text x @ 0x5D # rest'"])
next
  case (10 x y ys)
  let ?r = "json_items_text (y # ys) @ rest'"
  from 10 have "json_value (json_text x @ 0x2C # ?r) = Some (x, 0x2C # ?r)"
    by (simp add: stops_comma)
  moreover from 10 have "json_items ?r = Some (y # ys, rest')" by simp
  ultimately show ?case
    by (simp add: json_items.simps [of "json_text x @ 0x2C # ?r"])
qed (simp_all add: is_digit_def json_chars_string)

lemma json_decode_text: "representable_value v \<Longrightarrow> json_decode (json_text v) = Some v"
  using json_value_text(1) [of v "[]"] by (simp add: json_decode_def stops_def)

text \<open>
  The text of a representable value holds no surrogate, so that its UTF-8 bytes give it
  back.
\<close>

lemma scalar_string_append [simp]:
  "scalar_string (a @ b) \<longleftrightarrow> scalar_string a \<and> scalar_string b"
  by (simp add: scalar_string_def)

lemma scalar_string_Cons [simp]:
  "scalar_string (c # s) \<longleftrightarrow> \<not> surrogate c \<and> scalar_string s"
  by (simp add: scalar_string_def)

lemma scalar_string_Nil [simp]: "scalar_string []"
  by (simp add: scalar_string_def)

lemma hex_digit_scalar: "n < 16 \<Longrightarrow> \<not> surrogate (hex_digit n)"
  by (cases "n < 10") (simp_all add: surrogate_def hex_digit_def unat_48 unat_87)

lemma json_escape_scalar: "\<not> surrogate u \<Longrightarrow> scalar_string (json_escape u)"
  by (simp add: json_escape_def surrogate_def hex_digit_scalar [unfolded surrogate_def])

lemma escaped_scalar: "scalar_string s \<Longrightarrow> scalar_string (concat (map json_escape s))"
  by (induction s) (simp_all add: json_escape_scalar)

lemma decimal_scalar: "scalar_string (decimal n)"
proof -
  have "\<not> surrogate c" if "c \<in> set (decimal n)" for c
    using decimal_digits [OF that] by (simp add: is_digit_def surrogate_def)
  then show ?thesis by (simp add: scalar_string_def list_all_iff)
qed

lemma json_text_scalar:
  "representable_value v \<Longrightarrow> scalar_string (json_text v)"
  "list_all representable_value xs \<Longrightarrow> scalar_string (json_items_text xs)"
  by (induction v and xs rule: json_text_json_items_text.induct)
     (simp_all add: surrogate_def decimal_scalar escaped_scalar)

lemma utf8_round_trip: "scalar_string s \<Longrightarrow> utf8_text (utf8 s) = s"
  using utf8_text_utf8 [of s "[]"] by (simp add: scalar_string_def)

text \<open>A record key that passes the guard and is representable is given back.\<close>

lemma key_round_trip:
  assumes "keyEncoding L = ''bytewise''" and "truthy codec_platform k"
    and "representable_key k"
  shows "\<exists>b. encodeKey codec_platform L k = Inr b \<and> decodeKey codec_platform L b = Inr k"
  using assms tuple_decode_encode [of k]
  by (simp add: encodeKey_def decodeKey_def encode_def decode_def codec_platform_def)

text \<open>
  C10, as the code has it. For every representable key \<open>k\<close>, \<open>decode\<close> after
  \<open>encode\<close> gives \<open>k\<close> back under the key scheme; for every representable value
  \<open>v\<close>, \<open>decode\<close> after \<open>encode\<close> gives \<open>v\<close> back under the value scheme, and
  so does \<open>decodeValue\<close> after \<open>encodeValue\<close> unless \<open>v\<close> is \<^verbatim>\<open>null\<close>.
\<close>

theorem codec_round_trip:
  "(representable_key k \<longrightarrow>
      (\<exists>b. encode codec_platform k ''bytewise'' = Inr (Some b)
           \<and> decode codec_platform b ''bytewise'' = Inr k))
   \<and> (representable_value v \<longrightarrow>
      (\<exists>b. encode codec_platform v ''json'' = Inr (Some b)
           \<and> decode codec_platform b ''json'' = Inr v))
   \<and> (representable_value v \<and> valueEncoding L = ''json'' \<and> v \<noteq> JNull \<longrightarrow>
      (\<exists>b. encodeValue codec_platform L v = Inr b \<and> decodeValue codec_platform L b = Inr v))"
proof -
  have key: "encode codec_platform k ''bytewise'' = Inr (Some (tuple_encode k))"
    by (simp add: encode_def codec_platform_def)
  have "decode codec_platform (tuple_encode k) ''bytewise'' = Inr k" if "representable_key k"
    using tuple_decode_encode [OF that] by (simp add: decode_def codec_platform_def)
  with key have 1: "representable_key k \<longrightarrow>
      (\<exists>b. encode codec_platform k ''bytewise'' = Inr (Some b)
           \<and> decode codec_platform b ''bytewise'' = Inr k)"
    by blast
  have 2: "encode codec_platform v ''json'' = Inr (Some (utf8 (json_text v)))
           \<and> decode codec_platform (utf8 (json_text v)) ''json'' = Inr v"
    if r: "representable_value v"
  proof -
    from r have "v \<noteq> JUndefined" by auto
    moreover from r have "utf8_text (utf8 (json_text v)) = json_text v"
      by (simp add: utf8_round_trip json_text_scalar)
    ultimately show ?thesis
      using json_decode_text [OF r] by (simp add: encode_def decode_def codec_platform_def)
  qed
  have 3: "\<exists>b. encodeValue codec_platform L v = Inr b \<and> decodeValue codec_platform L b = Inr v"
    if r: "representable_value v" and L: "valueEncoding L = ''json''" and n: "v \<noteq> JNull"
  proof -
    from r n have "\<not> nullish v" by (cases v) auto
    with 2 [OF r] L show ?thesis by (simp add: encodeValue_def decodeValue_def)
  qed
  from 1 2 3 show ?thesis by blast
qed

theorem codec_round_trip_witness:
  "representable_key (JArr [JStr [0x61, 0xE9], JNum 5, JArr [JNull, JUndefined, JBuf [0, 1]]])
   \<and> representable_value (JArr [JStr [0x61, 0x22, 0x20AC], JNum (- 12), JBool True, JNull])
   \<and> valueEncoding default_layer = ''json''
   \<and> (\<exists>b. encode codec_platform
             (JArr [JStr [0x61, 0xE9], JNum 5, JArr [JNull, JUndefined, JBuf [0, 1]]])
             ''bytewise'' = Inr (Some b)
          \<and> decode codec_platform b ''bytewise''
               = Inr (JArr [JStr [0x61, 0xE9], JNum 5, JArr [JNull, JUndefined, JBuf [0, 1]]]))
   \<and> (\<exists>b. encode codec_platform
             (JArr [JStr [0x61, 0x22, 0x20AC], JNum (- 12), JBool True, JNull]) ''json''
             = Inr (Some b)
          \<and> decode codec_platform b ''json''
               = Inr (JArr [JStr [0x61, 0x22, 0x20AC], JNum (- 12), JBool True, JNull]))
   \<and> (\<exists>b. encodeValue codec_platform default_layer
             (JArr [JStr [0x61, 0x22, 0x20AC], JNum (- 12), JBool True, JNull]) = Inr b
          \<and> decodeValue codec_platform default_layer b
               = Inr (JArr [JStr [0x61, 0x22, 0x20AC], JNum (- 12), JBool True, JNull]))"
proof -
  let ?k = "JArr [JStr [0x61, 0xE9], JNum 5, JArr [JNull, JUndefined, JBuf [0, 1]]]"
  let ?v = "JArr [JStr [0x61, 0x22, 0x20AC], JNum (- 12), JBool True, JNull]"
  have k: "representable_key ?k" by (simp add: scalar_string_def surrogate_def)
  have v: "representable_value ?v" by (simp add: scalar_string_def surrogate_def)
  have L: "valueEncoding default_layer = ''json''" by (simp add: default_layer_def)
  from codec_round_trip [of ?k ?v default_layer] k v L show ?thesis by simp
qed

lemmas codec_defs =
  encode_def decode_def encodeValue_def decodeValue_def codec_platform_def default_layer_def
  tuple_decode_def json_decode_def terminated_def escape_byte_def number_bytes_def
  utf8_def utf8_unit_def surrogate_def continuation_def is_digit_def decimal_value_def
  json_escape_def simple_escape_def hex4_def hex_value_def hex_digit_def scalar_string_def

text \<open>The bytes of that key and of that value, and the values read back from them.\<close>

lemma key_bytes_example:
  "encode codec_platform (JArr [JStr [0x61, 0xE9], JNum 5, JArr [JNull, JUndefined, JBuf [0, 1]]])
     ''bytewise''
     = Inr (Some [0xA0, 0x70, 0x61, 0xC3, 0xA9, 0x00, 0x42, 0x01, 0x01, 0x01, 0x01, 0x01, 0x00,
                  0xA0, 0x10, 0xF0, 0x60, 0x01, 0x01, 0x01, 0x02, 0x00, 0x00, 0x00])
   \<and> decode codec_platform
         [0xA0, 0x70, 0x61, 0xC3, 0xA9, 0x00, 0x42, 0x01, 0x01, 0x01, 0x01, 0x01, 0x00,
          0xA0, 0x10, 0xF0, 0x60, 0x01, 0x01, 0x01, 0x02, 0x00, 0x00, 0x00] ''bytewise''
     = Inr (JArr [JStr [0x61, 0xE9], JNum 5, JArr [JNull, JUndefined, JBuf [0, 1]]])"
proof -
  have "replicate 5 (1 :: 8 word) = [1, 1, 1, 1, 1]" by (simp add: eval_nat_numeral)
  then show ?thesis by (simp add: codec_defs)
qed

lemma value_bytes_example:
  "encode codec_platform (JArr [JStr [0x61, 0x22, 0x20AC], JNum (- 12), JBool True, JNull])
     ''json''
     = Inr (Some [0x5B, 0x22, 0x61, 0x5C, 0x22, 0xE2, 0x82, 0xAC, 0x22, 0x2C, 0x2D, 0x31, 0x32,
                  0x2C, 0x74, 0x72, 0x75, 0x65, 0x2C, 0x6E, 0x75, 0x6C, 0x6C, 0x5D])
   \<and> decode codec_platform
         [0x5B, 0x22, 0x61, 0x5C, 0x22, 0xE2, 0x82, 0xAC, 0x22, 0x2C, 0x2D, 0x31, 0x32,
          0x2C, 0x74, 0x72, 0x75, 0x65, 0x2C, 0x6E, 0x75, 0x6C, 0x6C, 0x5D] ''json''
     = Inr (JArr [JStr [0x61, 0x22, 0x20AC], JNum (- 12), JBool True, JNull])"
  by (simp add: codec_defs decimal.simps json_items.simps)

text \<open>
  The claim as stated fails at the value \<^verbatim>\<open>null\<close>: it is representable, and
  \<open>decode\<close> after \<open>encode\<close> gives it back, but \<open>encodeValue\<close> maps it to the absence
  of a value, which \<open>decodeValue\<close> returns as \<^verbatim>\<open>undefined\<close>.
\<close>

theorem null_value_round_trip_counterexample:
  "representable_value JNull
   \<and> encode codec_platform JNull ''json'' = Inr (Some [0x6E, 0x75, 0x6C, 0x6C])
   \<and> decode codec_platform [0x6E, 0x75, 0x6C, 0x6C] ''json'' = Inr JNull
   \<and> valueEncoding default_layer = ''json''
   \<and> encodeValue codec_platform default_layer JNull = Inr None
   \<and> decodeValue codec_platform default_layer None = Inr JUndefined
   \<and> Inr JUndefined \<noteq> (Inr JNull :: error + int jsval)"
  by (simp add: codec_defs)

section \<open>The order of the encoded keys\<close>

text \<open>
  The key scheme of the codec model is order-preserving, as the contract of the tuple
  codec asks: the images of two representable values compare byte by byte as the values
  do in the order of keys defined above.
\<close>

lemma below_str_less: "below x y \<Longrightarrow> str_less (x @ r) (y @ r')"
  by (induction x y rule: below.induct) auto

lemma below_append: "below x y \<Longrightarrow> below (x @ r) (y @ r')"
  by (induction x y rule: below.induct) auto

lemma below_prefix: "below (p @ x) (p @ y) = below x y"
  by (induction p) auto

lemma byte_gt_0: "(b :: 8 word) \<noteq> 0 \<Longrightarrow> 0 < b"
  by (simp add: word_greater_zero_iff)

lemma byte_gt_1: "(b :: 8 word) \<noteq> 0 \<Longrightarrow> b \<noteq> 1 \<Longrightarrow> 1 < b"
  by (metis byte_gt_0 word_less_nat_alt unat_1 unat_eq_zero less_one linorder_neqE_nat word_unat_eq_iff)

lemma ones_below:
  "m < n \<Longrightarrow> below (replicate m (1 :: 8 word) @ [0]) (replicate n 1 @ [0])"
proof -
  assume "m < n"
  then obtain k where n: "n = m + Suc k" by (auto simp: less_iff_Suc_add)
  show ?thesis unfolding n replicate_add by (simp add: below_prefix)
qed

lemma ones_above:
  "n < m \<Longrightarrow> below (replicate m (1 :: 8 word) @ [2]) (replicate n 1 @ [2])"
proof -
  assume "n < m"
  then obtain k where m: "m = n + Suc k" by (auto simp: less_iff_Suc_add)
  show ?thesis unfolding m replicate_add by (simp add: below_prefix)
qed

lemma number_bytes_below: "a < b \<Longrightarrow> below (number_bytes a) (number_bytes b)"
  by (auto simp: number_bytes_def intro!: ones_below ones_above)

lemma escape_byte_below:
  assumes "x < y"
  shows "below (escape_byte x @ r) (escape_byte y @ r')"
proof -
  from assms have y0: "y \<noteq> 0" by (auto simp: word_less_nat_alt)
  show ?thesis
  proof (cases "x = 0")
    case True
    with y0 byte_gt_1 [of y] show ?thesis by (auto simp: escape_byte_def)
  next
    case x0: False
    show ?thesis
    proof (cases "x = 1")
      case True
      with assms have "y \<noteq> 1" by auto
      with True y0 assms show ?thesis by (auto simp: escape_byte_def)
    next
      case False
      with x0 byte_gt_1 [of x] assms have "1 < y" by (auto simp: word_less_nat_alt)
      then have "y \<noteq> 1" by auto
      with x0 False y0 assms show ?thesis by (auto simp: escape_byte_def)
    qed
  qed
qed

lemma escape_byte_head: "\<exists>h t. escape_byte x @ r = h # t \<and> 0 < h"
  by (auto simp: escape_byte_def byte_gt_0)

lemma terminated_below: "str_less x y \<Longrightarrow> below (terminated x) (terminated y)"
proof (induction x y rule: str_less.induct)
  case (2 y ys)
  from escape_byte_head [of y "terminated ys"] show ?case
    by (auto simp: terminated_def)
next
  case (4 x xs y ys)
  show ?case
  proof (cases "x < y")
    case True
    from escape_byte_below [OF this] show ?thesis by (simp add: terminated_def)
  next
    case False
    with 4 have "x = y" "below (terminated xs) (terminated ys)" by auto
    then show ?thesis by (simp add: terminated_def below_prefix)
  qed
qed simp_all


lemma pair_order:
  assumes "n < (m :: nat)"
  shows "n div 64 < m div 64 \<or> (n div 64 = m div 64 \<and> n mod 64 < m mod 64)"
proof -
  define q r q' r' where "q = n div 64" and "r = n mod 64" and "q' = m div 64"
    and "r' = m mod 64"
  have "64 * (n div 64) + n mod 64 = n" "64 * (m div 64) + m mod 64 = m"
    by (rule mult_div_mod_eq)+
  then have "64 * q + r = n" "64 * q' + r' = m"
    by (simp_all only: q_def r_def q'_def r'_def)
  moreover have "r < 64" "r' < 64" by (simp_all add: r_def r'_def)
  ultimately have "q < q' \<or> (q = q' \<and> r < r')" using assms by linarith
  then show ?thesis by (simp only: q_def r_def q'_def r'_def)
qed

lemma sextet_order:
  assumes "n < (m :: nat)"
  shows "n div 4096 < m div 4096
     \<or> (n div 4096 = m div 4096
        \<and> (n div 64 mod 64 < m div 64 mod 64
           \<or> (n div 64 mod 64 = m div 64 mod 64 \<and> n mod 64 < m mod 64)))"
proof -
  have d: "k div 4096 = k div 64 div 64" for k :: nat
    by (simp only: div_mult2_eq [symmetric]) simp
  from pair_order [OF assms] show ?thesis
  proof
    assume "n div 64 < m div 64"
    from pair_order [OF this] show ?thesis by (auto simp only: d)
  next
    assume "n div 64 = m div 64 \<and> n mod 64 < m mod 64"
    then show ?thesis by (simp only: d) simp
  qed
qed

lemma byte_less: "a < b \<Longrightarrow> b < 256 \<Longrightarrow> (of_nat a :: 8 word) < of_nat b"
  by (simp add: word_less_nat_alt unat_byte)

lemma utf8_unit_below:
  assumes "\<not> surrogate u" and "\<not> surrogate v" and "u < v"
  shows "below (utf8_unit u @ r) (utf8_unit v @ r')"
proof -
  let ?n = "unat u" and ?m = "unat v"
  from assms(3) have nm: "?n < ?m" by (simp add: word_less_nat_alt)
  have m: "?m < 65536" using unsigned_less [of v] by simp
  then have m16: "?m div 4096 < 16" by simp
  consider (a) "?m < 128" | (b) "?n < 128" "128 \<le> ?m" "?m < 2048"
    | (c) "?n < 128" "2048 \<le> ?m" | (d) "128 \<le> ?n" "?m < 2048"
    | (e) "128 \<le> ?n" "?n < 2048" "2048 \<le> ?m" | (f) "2048 \<le> ?n"
    by linarith
  then show ?thesis
  proof cases
    case a
    with nm byte_less [of ?n ?m] assms(1,2) show ?thesis
      by (simp add: utf8_unit_def del: of_nat_unat)
  next
    case b
    with byte_less [of ?n "192 + ?m div 64"] assms(1,2) show ?thesis
      by (simp add: utf8_unit_def del: of_nat_unat of_nat_add)
  next
    case c
    with m16 byte_less [of ?n "224 + ?m div 4096"] assms(1,2) show ?thesis
      by (simp add: utf8_unit_def del: of_nat_unat of_nat_add)
  next
    case d
    from pair_order [OF nm] show ?thesis
    proof
      assume "?n div 64 < ?m div 64"
      with d nm byte_less [of "192 + ?n div 64" "192 + ?m div 64"] assms(1,2) show ?thesis
        by (simp add: utf8_unit_def del: of_nat_unat of_nat_add)
    next
      assume "?n div 64 = ?m div 64 \<and> ?n mod 64 < ?m mod 64"
      with d nm byte_less [of "128 + ?n mod 64" "128 + ?m mod 64"] assms(1,2) show ?thesis
        by (simp add: utf8_unit_def del: of_nat_unat of_nat_add)
    qed
  next
    case e
    then have "?n div 64 < 32" by simp
    with e m16 byte_less [of "192 + ?n div 64" "224 + ?m div 4096"] assms(1,2) show ?thesis
      by (simp add: utf8_unit_def del: of_nat_unat of_nat_add)
  next
    case f
    with nm have f': "2048 \<le> ?m" by simp
    from sextet_order [OF nm] consider
      (1) "?n div 4096 < ?m div 4096"
      | (2) "?n div 4096 = ?m div 4096" "?n div 64 mod 64 < ?m div 64 mod 64"
      | (3) "?n div 4096 = ?m div 4096" "?n div 64 mod 64 = ?m div 64 mod 64"
          "?n mod 64 < ?m mod 64"
      by blast
    then show ?thesis
    proof cases
      case 1
      with f f' m16 byte_less [of "224 + ?n div 4096" "224 + ?m div 4096"] assms(1,2)
      show ?thesis by (simp add: utf8_unit_def del: of_nat_unat of_nat_add)
    next
      case 2
      with f f' byte_less [of "128 + ?n div 64 mod 64" "128 + ?m div 64 mod 64"] assms(1,2)
      show ?thesis by (simp add: utf8_unit_def del: of_nat_unat of_nat_add)
    next
      case 3
      with f f' byte_less [of "128 + ?n mod 64" "128 + ?m mod 64"] assms(1,2)
      show ?thesis by (simp add: utf8_unit_def del: of_nat_unat of_nat_add)
    qed
  qed
qed

lemma utf8_unit_not_empty: "utf8_unit u \<noteq> []"
  by (simp add: utf8_unit_def)

lemma utf8_order:
  "scalar_string s \<Longrightarrow> scalar_string t \<Longrightarrow> str_less s t \<Longrightarrow> str_less (utf8 s) (utf8 t)"
proof (induction s t rule: str_less.induct)
  case (2 y ys)
  from utf8_unit_not_empty [of y] show ?case
    by (cases "utf8_unit y") (simp_all add: utf8_def)
next
  case (4 x xs y ys)
  show ?case
  proof (cases "x < y")
    case True
    with 4 have "below (utf8_unit x @ utf8 xs) (utf8_unit y @ utf8 ys)"
      by (intro utf8_unit_below) (simp_all add: scalar_string_def)
    from below_str_less [OF this, of "[]" "[]"] show ?thesis by (simp add: utf8_def)
  next
    case False
    with 4 have "x = y" "str_less (utf8 xs) (utf8 ys)" by (auto simp: scalar_string_def)
    then show ?thesis by (simp add: utf8_def str_less_append_same)
  qed
qed simp_all

lemma tag_order:
  "kind_rank a < kind_rank b \<Longrightarrow> below (tuple_encode a) (tuple_encode b)"
  by (cases a; cases b) (simp_all add: number_bytes_def)

lemma tag_order_sentinels:
  "0 < kind_rank b \<Longrightarrow> below [0x10] (tuple_encode b)"
  "6 < kind_rank b \<Longrightarrow> below [0xF0] (tuple_encode b)"
  "kind_rank a < 6 \<Longrightarrow> below (tuple_encode a) [0xF0]"
  using tag_order [of JNull b] tag_order [of JUndefined b] tag_order [of a JUndefined]
  by simp_all

lemma terminator_below: "below [0] (tuple_encode y @ r)"
  using tuple_encode_tag [of y] by (auto simp: byte_gt_0)

lemma tuple_encode_below:
  "representable_key a \<Longrightarrow> representable_key b \<Longrightarrow> comp_less a b
     \<Longrightarrow> below (tuple_encode a) (tuple_encode b)"
  "list_all representable_key xs \<Longrightarrow> list_all representable_key ys \<Longrightarrow> key_less xs ys
     \<Longrightarrow> below (concat (map tuple_encode xs) @ [0]) (concat (map tuple_encode ys) @ [0])"
proof (induction a b and xs ys rule: comp_less_key_less.induct)
  case (2 a b)
  then show ?case by (simp add: number_bytes_below)
next
  case (3 a b)
  then show ?case by (simp add: terminated_below)
next
  case (4 a b)
  then show ?case by (simp add: terminated_below utf8_order)
next
  case (5 a b)
  then show ?case by simp
qed (auto simp: number_bytes_def terminator_below below_prefix tag_order_sentinels
       intro: tag_order below_append)

text \<open>Two representable values compare as their images do.\<close>

lemma tuple_encode_order:
  assumes "representable_key a" and "representable_key b"
  shows "comp_less a b \<longleftrightarrow> str_less (tuple_encode a) (tuple_encode b)"
proof
  assume "comp_less a b"
  from below_str_less [OF tuple_encode_below(1) [OF assms this], of "[]" "[]"]
  show "str_less (tuple_encode a) (tuple_encode b)" by simp
next
  assume s: "str_less (tuple_encode a) (tuple_encode b)"
  from order_total(1) [of a b] show "comp_less a b"
  proof (elim disjE)
    assume "a = b"
    with s str_less_irrefl show ?thesis by auto
  next
    assume "comp_less b a"
    from below_str_less [OF tuple_encode_below(1) [OF assms(2,1) this], of "[]" "[]"]
      str_less_asym [OF s]
    show ?thesis by simp
  qed
qed

lemma structured_key_order:
  assumes "list_all representable_key xs" and "list_all representable_key ys"
  shows "key_less xs ys \<longleftrightarrow> str_less (tuple_encode (JArr xs)) (tuple_encode (JArr ys))"
  using tuple_encode_order [of "JArr xs" "JArr ys"] assms by simp

section \<open>What the normalizer leaves alone\<close>

lemma keepsI:
  assumes "\<And>h r h'. n \<le> length h \<Longrightarrow> m h = (r, h')
             \<Longrightarrow> length h \<le> length h' \<and> (\<forall>i<n. h' ! i = h ! i)"
  shows "keeps n m"
  using assms unfolding keeps_def by blast

lemma keepsD:
  assumes "keeps n m" and "n \<le> length h" and "m h = (r, h')"
  shows "length h \<le> length h'" and "\<And>i. i < n \<Longrightarrow> h' ! i = h ! i"
  using assms unfolding keeps_def by blast+

lemma keeps_hret: "keeps n (hret x)"
  by (simp add: keeps_def hret_def)

lemma keeps_hthrow: "keeps n (hthrow e)"
  by (simp add: keeps_def hthrow_def)

lemma keeps_alloc: "keeps n (alloc c)"
  by (auto simp: keeps_def alloc_def nth_append)

lemma keeps_read_array: "keeps n (read_array v)"
  by (auto simp: keeps_def read_array_def split: option.splits cell.splits)

lemma keeps_read_object: "keeps n (read_object v)"
  by (auto simp: keeps_def read_object_def split: option.splits cell.splits)

lemma keeps_isArray: "keeps n (isArray v)"
  by (auto simp: keeps_def isArray_def split: option.splits cell.splits)

lemma keeps_clone: "keeps n (clone v)"
  by (auto simp: keeps_def clone_def alloc_def nth_append split: option.splits)

lemma keeps_store: "fresh n v \<Longrightarrow> keeps n (store v c)"
  by (auto simp: keeps_def store_def fresh_def split: hval.splits if_splits)

lemma keeps_hbind:
  assumes "keeps n m" and "\<And>x. keeps n (f x)"
  shows "keeps n (hbind m f)"
proof (rule keepsI)
  fix h r h'
  assume n: "n \<le> length h" and run: "hbind m f h = (r, h')"
  obtain r1 h1 where m: "m h = (r1, h1)" by (cases "m h")
  from keepsD [OF assms(1) n m] have l1: "length h \<le> length h1"
    and e1: "\<And>i. i < n \<Longrightarrow> h1 ! i = h ! i" by blast+
  show "length h \<le> length h' \<and> (\<forall>i<n. h' ! i = h ! i)"
  proof (cases r1)
    case (Inl e)
    with m run l1 e1 show ?thesis by (simp add: hbind_def)
  next
    case (Inr x)
    with m run have f: "f x h1 = (r, h')" by (simp add: hbind_def)
    from n l1 have "n \<le> length h1" by simp
    from keepsD [OF assms(2) this f] l1 e1 show ?thesis by auto
  qed
qed

lemma clone_fresh:
  assumes "n \<le> length h" and "clone v h = (Inr x, h')"
  shows "fresh n x"
  using assms
  by (auto simp: clone_def alloc_def lookup_def fresh_def split: option.splits hval.splits if_splits)

lemma keeps_hbind_clone:
  assumes "\<And>x. fresh n x \<Longrightarrow> keeps n (f x)"
  shows "keeps n (hbind (clone v) f)"
proof (rule keepsI)
  fix h r h'
  assume n: "n \<le> length h" and run: "hbind (clone v) f h = (r, h')"
  obtain r1 h1 where m: "clone v h = (r1, h1)" by (cases "clone v h")
  from keepsD [OF keeps_clone n m] have l1: "length h \<le> length h1"
    and e1: "\<And>i. i < n \<Longrightarrow> h1 ! i = h ! i" by blast+
  show "length h \<le> length h' \<and> (\<forall>i<n. h' ! i = h ! i)"
  proof (cases r1)
    case (Inl e)
    with m run l1 e1 show ?thesis by (simp add: hbind_def)
  next
    case (Inr x)
    with m run have f: "f x h1 = (r, h')" by (simp add: hbind_def)
    from n l1 have n1: "n \<le> length h1" by simp
    from clone_fresh [OF n] m Inr have "fresh n x" by simp
    from keepsD [OF assms [OF this] n1 f] l1 e1 show ?thesis by auto
  qed
qed

lemma keeps_hseq:
  assumes "keeps n m" and "keeps n k"
  shows "keeps n (hseq m k)"
  unfolding hseq_def using assms by (intro keeps_hbind)

lemma keeps_if:
  assumes "b \<Longrightarrow> keeps n m" and "\<not> b \<Longrightarrow> keeps n k"
  shows "keeps n (if b then m else k)"
  using assms by simp

lemma keeps_bytewise_only: "keeps n (bytewise_only L)"
  by (simp add: bytewise_only_def keeps_hret keeps_hthrow)

lemma keeps_hasOwn: "keeps n (hasOwn obj p)"
  unfolding hasOwn_def
  by (intro keeps_hbind keeps_read_object keeps_if keeps_hthrow keeps_hret)

lemma keeps_getp: "keeps n (getp obj p)"
  unfolding getp_def by (intro keeps_hbind keeps_read_object keeps_hret)

lemma keeps_setp: "fresh n obj \<Longrightarrow> keeps n (setp obj p v)"
  unfolding setp_def by (intro keeps_hbind keeps_read_object keeps_store)

lemma keeps_delp: "fresh n obj \<Longrightarrow> keeps n (delp obj p)"
  unfolding delp_def by (intro keeps_hbind keeps_read_object keeps_store)

lemmas keeps_basic =
  keeps_hseq keeps_hbind keeps_if keeps_hret keeps_hthrow keeps_alloc keeps_read_array
  keeps_read_object keeps_isArray keeps_bytewise_only keeps_hasOwn keeps_getp

lemma keeps_getPreviousKey_h: "keeps n (getPreviousKey_h P L key)"
  unfolding getPreviousKey_h_def
  by (rule keeps_hseq, rule keeps_bytewise_only, rule keeps_hbind_clone)
     (intro keeps_basic keeps_store)

lemma keeps_getNextKey_h: "keeps n (getNextKey_h P L key)"
  unfolding getNextKey_h_def
  by (rule keeps_hseq, rule keeps_bytewise_only, rule keeps_hbind_clone)
     (intro keeps_basic keeps_store)

lemma keeps_getEmptyKey_h: "keeps n (getEmptyKey_h L)"
  unfolding getEmptyKey_h_def by (intro keeps_basic)

lemma keeps_getMaximumKey_h: "keeps n (getMaximumKey_h L)"
  unfolding getMaximumKey_h_def by (intro keeps_basic)

lemma keeps_normalizeKey_h: "keeps n (normalizeKey_h L key)"
  unfolding normalizeKey_h_def by (intro keeps_basic)

lemma keeps_concatKeys_h: "keeps n (concatKeys_h L key1 key2)"
  unfolding concatKeys_h_def by (intro keeps_basic)

lemmas keeps_keys =
  keeps_getPreviousKey_h keeps_getNextKey_h keeps_getEmptyKey_h keeps_getMaximumKey_h
  keeps_normalizeKey_h keeps_concatKeys_h

lemma keeps_select_value_h: "fresh n options \<Longrightarrow> keeps n (select_value_h options)"
  unfolding select_value_h_def by (intro keeps_basic keeps_setp)

lemma keeps_select_start_h: "fresh n options \<Longrightarrow> keeps n (select_start_h P L options)"
  unfolding select_start_h_def by (intro keeps_basic keeps_keys keeps_setp keeps_delp)

lemma keeps_select_end_h: "fresh n options \<Longrightarrow> keeps n (select_end_h P L options)"
  unfolding select_end_h_def by (intro keeps_basic keeps_keys keeps_setp keeps_delp)

lemma keeps_select_prefix_h: "fresh n options \<Longrightarrow> keeps n (select_prefix_h L options)"
  unfolding select_prefix_h_def by (intro keeps_basic keeps_keys keeps_setp keeps_delp)

lemma keeps_select_swap_h: "fresh n options \<Longrightarrow> keeps n (select_swap_h P options)"
  unfolding select_swap_h_def by (intro keeps_basic keeps_setp)

lemma keeps_normalizeKeySelectors_h: "keeps n (normalizeKeySelectors_h P L options)"
  unfolding normalizeKeySelectors_h_def
  by (rule keeps_hbind_clone)
     (intro keeps_basic keeps_select_value_h keeps_select_start_h keeps_select_end_h
        keeps_select_prefix_h keeps_select_swap_h)


lemma hseq_result:
  assumes "hseq m k h = (Inr v, h')"
  shows "\<exists>h1. k h1 = (Inr v, h')"
  using assms by (auto simp: hseq_def hbind_def split: prod.splits sum.splits)

lemma normalizeKeySelectors_h_result:
  assumes "normalizeKeySelectors_h P L options h = (Inr v, h')"
  shows "\<exists>h1. clone options h = (Inr v, h1)"
proof -
  obtain r1 h1 where c: "clone options h = (r1, h1)" by (cases "clone options h")
  show ?thesis
  proof (cases r1)
    case (Inl e)
    with c assms show ?thesis by (simp add: normalizeKeySelectors_h_def hbind_def)
  next
    case (Inr x)
    with c assms have
      "hseq (select_value_h x) (hseq (select_start_h P L x) (hseq (select_end_h P L x)
         (hseq (select_prefix_h L x) (hseq (select_swap_h P x) (hret x))))) h1 = (Inr v, h')"
      by (simp add: normalizeKeySelectors_h_def hbind_def)
    then obtain h6 where "hret x h6 = (Inr v, h')"
      by (blast dest: hseq_result)
    then have "v = x" by (simp add: hret_def)
    with c Inr show ?thesis by simp
  qed
qed

lemma select_value_h_needs_object:
  assumes "select_value_h x h = (Inr u, h')"
  shows "\<exists>ps. lookup h x = Some (Object ps)"
  using assms
  by (auto simp: select_value_h_def hasOwn_def hbind_def read_object_def
      split: option.splits cell.splits prod.splits sum.splits)

text \<open>
  C8. Whatever the config, every cell of the heap before the call is unchanged after it
  (the config object and every array it refers to among them), and the object returned
  is a new cell, at the first address the old heap did not have.
\<close>

theorem normalizeKeySelectors_h_frame:
  assumes "normalizeKeySelectors_h P L options h = (r, h')"
  shows "length h \<le> length h'
         \<and> (\<forall>i<length h. h' ! i = h ! i)
         \<and> (\<forall>v. r = Inr v \<longrightarrow> v = HRef (length h))"
proof -
  from keepsD [OF keeps_normalizeKeySelectors_h order_refl assms]
  have frame: "length h \<le> length h'" "\<forall>i<length h. h' ! i = h ! i" by blast+
  have "v = HRef (length h)" if "r = Inr v" for v
  proof -
    from that assms normalizeKeySelectors_h_result obtain h1 where
      c: "clone options h = (Inr v, h1)" by blast
    from that assms c have
      "hseq (select_value_h v) (hseq (select_start_h P L v) (hseq (select_end_h P L v)
         (hseq (select_prefix_h L v) (hseq (select_swap_h P v) (hret v))))) h1 = (Inr v, h')"
      by (simp add: normalizeKeySelectors_h_def hbind_def)
    then obtain u h2 where "select_value_h v h1 = (Inr u, h2)"
      by (auto simp: hseq_def hbind_def split: prod.splits sum.splits)
    from select_value_h_needs_object [OF this] obtain ps where
      "lookup h1 v = Some (Object ps)" by blast
    with c show ?thesis
      by (auto simp: clone_def alloc_def lookup_def split: option.splits hval.splits if_splits)
  qed
  with frame show ?thesis by blast
qed

theorem normalizeKeySelectors_h_frame_witness:
  "(\<exists>h'. normalizeKeySelectors_h micro_platform default_layer (HRef 1) example_heap
           = (Inr (HRef 4), h')
         \<and> take 4 h' = example_heap \<and> length example_heap = 4
         \<and> h' ! 4 = Object [(''reverse'', HBool True), (''start'', HRef 8), (''end'', HRef 7)]
         \<and> h' ! 8 = Array [] \<and> h' ! 7 = Array [HStr [0x6C, 0xFFFF], HUndefined])"
proof -
  obtain r h' where run:
    "normalizeKeySelectors_h micro_platform default_layer (HRef 1) example_heap = (r, h')"
    by (cases "normalizeKeySelectors_h micro_platform default_layer (HRef 1) example_heap")
  note frame = normalizeKeySelectors_h_frame [OF run]
  have "normalizeKeySelectors_h micro_platform default_layer (HRef 1) example_heap
    = (Inr (HRef 4), example_heap @
        [Object [(''reverse'', HBool True), (''start'', HRef 8), (''end'', HRef 7)],
         Array [HStr [0x6C, 0xFFFF]], Array [HUndefined],
         Array [HStr [0x6C, 0xFFFF], HUndefined], Array []])"
    by code_simp
  with frame show ?thesis by (simp add: example_heap_def)
qed

section \<open>The two models agree\<close>

lemma rep_append: "rep h v j \<Longrightarrow> rep (h @ hs) v j"
proof (induction rule: rep.induct)
  case (rep_arr a xs js)
  from rep_arr(3) have "list_all2 (rep (h @ hs)) xs js"
    by (rule list_all2_mono) simp
  with rep_arr(1,2) show ?case by (auto intro!: rep.rep_arr simp: nth_append)
qed (auto intro: rep.intros)

lemma rep_object_update:
  assumes "rep h v j" and "b < length h" and "h ! b = Object ps"
  shows "rep (h[b := Object ps']) v j"
  using assms(1)
proof (induction rule: rep.induct)
  case (rep_arr a xs js)
  from rep_arr(3) have l: "list_all2 (rep (h[b := Object ps'])) xs js"
    by (rule list_all2_mono) simp
  from rep_arr(2) assms(3) have "a \<noteq> b" by auto
  with rep_arr(1,2) l show ?case by (auto intro!: rep.rep_arr)
qed (auto intro: rep.intros)

lemma rep_truthy: "rep h v j \<Longrightarrow> truthy_h P v = truthy P j"
  by (induction rule: rep.induct) simp_all

lemma rep_previous: "rep h v j \<Longrightarrow> rep h (getPreviousKey'_h P v) (getPreviousKey' P j)"
  by (erule rep.cases) (auto intro: rep.intros)

lemma rep_next: "rep h v j \<Longrightarrow> rep h (getNextKey'_h P v) (getNextKey' P j)"
  by (erule rep.cases) (auto intro: rep.intros)

lemma rep_array_iff:
  "rep h v (JArr js) \<longleftrightarrow> (\<exists>xs. lookup h v = Some (Array xs) \<and> list_all2 (rep h) xs js)"
  by (auto simp: lookup_def elim: rep.cases intro: rep.intros split: hval.splits if_splits)

lemma rep_not_array:
  assumes "rep h v j" and "\<And>js. j \<noteq> JArr js"
  shows "\<And>xs. lookup h v \<noteq> Some (Array xs)" and "lookup h v = None"
  using assms by (auto simp: lookup_def elim!: rep.cases)

lemma map_of_set_prop: "map_of (set_prop ps p v) = (map_of ps)(p \<mapsto> v)"
proof -
  have "map_of (map (\<lambda>(q, w). if q = p then (q, v) else (q, w)) ps) q
          = (if q = p \<and> map_of ps p \<noteq> None then Some v else map_of ps q)" for q
    by (induction ps) auto
  then show ?thesis
    by (auto simp: set_prop_def has_prop_def fun_eq_iff map_add_def split: option.splits)
qed

lemma map_of_delete_prop: "map_of (delete_prop ps p) = (map_of ps)(p := None)"
  unfolding delete_prop_def by (induction ps) (auto simp: fun_eq_iff)

lemma opts_rep_append: "opts_rep h obj cur \<Longrightarrow> opts_rep (h @ hs) obj cur"
  unfolding opts_rep_def
  by (auto simp: lookup_def nth_append split: hval.splits if_splits
      intro: option.rel_mono_strong rep_append)

lemma holds_append: "holds obj cur vs h \<Longrightarrow> holds obj cur vs (h @ hs)"
  unfolding holds_def by (auto intro: opts_rep_append rep_append)

lemma hasOwn_run:
  assumes "opts_rep h obj cur"
  shows "hasOwn obj p h =
           (case call_hasOwnProperty cur p of Inl e \<Rightarrow> (Inl e, h) | Inr b \<Rightarrow> (Inr b, h))"
proof -
  from assms obtain ps where ps: "lookup h obj = Some (Object ps)"
    and r: "\<And>q. rel_option (rep h) (map_of ps q) (cur q)" unfolding opts_rep_def by blast
  have "has_prop ps q = hasOwnProperty cur q" for q
    using r [of q]
    by (cases "map_of ps q"; cases "cur q") (simp_all add: has_prop_def hasOwnProperty_def)
  with ps show ?thesis
    by (simp add: hasOwn_def hbind_def read_object_def hret_def hthrow_def
        call_hasOwnProperty_def)
qed

lemma getp_run:
  assumes "opts_rep h obj cur"
  shows "\<exists>v. getp obj p h = (Inr v, h) \<and> rep h v (getprop cur p)"
proof -
  from assms obtain ps where ps: "lookup h obj = Some (Object ps)"
    and r: "rel_option (rep h) (map_of ps p) (cur p)" unfolding opts_rep_def by blast
  from r have "rep h (get_prop ps p) (getprop cur p)"
    by (cases "map_of ps p"; cases "cur p")
       (simp_all add: get_prop_def getprop_def rep.intros)
  with ps show ?thesis by (simp add: getp_def hbind_def read_object_def hret_def)
qed

lemma setp_run:
  assumes "holds obj cur vs h" and "rep h v j"
  shows "\<exists>h'. setp obj p v h = (Inr (), h') \<and> holds obj (cur(p \<mapsto> j)) vs h'"
proof -
  from assms(1) obtain ps where ps: "lookup h obj = Some (Object ps)"
    and r: "\<And>q. rel_option (rep h) (map_of ps q) (cur q)"
    and k: "\<And>w k. (w, k) \<in> set vs \<Longrightarrow> rep h w k"
    unfolding holds_def opts_rep_def by blast
  from ps obtain a where a: "obj = HRef a" "a < length h" "h ! a = Object ps"
    by (auto simp: lookup_def split: hval.splits if_splits)
  let ?h = "h[a := Object (set_prop ps p v)]"
  have up: "rep ?h w k" if "rep h w k" for w k
    using rep_object_update [OF that a(2,3)] .
  have run: "setp obj p v h = (Inr (), ?h)"
    using ps a by (simp add: setp_def hbind_def read_object_def store_def)
  have "rel_option (rep ?h) (map_of (set_prop ps p v) q) ((cur(p \<mapsto> j)) q)" for q
    using r [of q] up assms(2)
    by (auto simp: map_of_set_prop intro: option.rel_mono_strong)
  with a have "opts_rep ?h obj (cur(p \<mapsto> j))"
    unfolding opts_rep_def by (auto simp: lookup_def)
  with run up k show ?thesis unfolding holds_def by blast
qed

lemma delp_run:
  assumes "holds obj cur vs h"
  shows "\<exists>h'. delp obj p h = (Inr (), h') \<and> holds obj (cur(p := None)) vs h'"
proof -
  from assms(1) obtain ps where ps: "lookup h obj = Some (Object ps)"
    and r: "\<And>q. rel_option (rep h) (map_of ps q) (cur q)"
    and k: "\<And>w k. (w, k) \<in> set vs \<Longrightarrow> rep h w k"
    unfolding holds_def opts_rep_def by blast
  from ps obtain a where a: "obj = HRef a" "a < length h" "h ! a = Object ps"
    by (auto simp: lookup_def split: hval.splits if_splits)
  let ?h = "h[a := Object (delete_prop ps p)]"
  have up: "rep ?h w k" if "rep h w k" for w k
    using rep_object_update [OF that a(2,3)] .
  have run: "delp obj p h = (Inr (), ?h)"
    using ps a by (simp add: delp_def hbind_def read_object_def store_def)
  have "rel_option (rep ?h) (map_of (delete_prop ps p) q) ((cur(p := None)) q)" for q
    using r [of q] up
    by (auto simp: map_of_delete_prop intro: option.rel_mono_strong)
  with a have "opts_rep ?h obj (cur(p := None))"
    unfolding opts_rep_def by (auto simp: lookup_def)
  with run up k show ?thesis unfolding holds_def by blast
qed


lemma list_all2_snoc_parts:
  assumes "list_all2 R xs ys" and "xs \<noteq> []"
  shows "list_all2 R (butlast xs) (butlast ys)" and "R (last xs) (last ys)" and "ys \<noteq> []"
proof -
  from assms have l: "length xs = length ys" and ys: "ys \<noteq> []"
    by (auto dest: list_all2_lengthD)
  show "ys \<noteq> []" by fact
  from assms(1) have "list_all2 R (take (length xs - 1) xs) (take (length xs - 1) ys)"
    by (rule list_all2_takeI)
  with l show "list_all2 R (butlast xs) (butlast ys)" by (simp add: butlast_conv_take)
  from assms(2) have "length xs - 1 < length xs" by simp
  from list_all2_nthD [OF assms(1) this] l assms(2) ys
  show "R (last xs) (last ys)" by (simp add: last_conv_nth)
qed

lemma normalizeKey_h_run:
  assumes "rep h v j"
  shows "case normalizeKey L j of
           Inl e \<Rightarrow> normalizeKey_h L v h = (Inl e, h)
         | Inr k \<Rightarrow> (\<exists>x hs. normalizeKey_h L v h = (Inr x, h @ hs) \<and> rep (h @ hs) x (JArr k))"
proof (cases "keyEncoding L = ''bytewise''")
  case False
  then show ?thesis
    by (simp add: normalizeKey_def normalizeKey_h_def hseq_def hbind_def bytewise_only_def
        hthrow_def)
next
  case True
  show ?thesis
  proof (cases "\<exists>js. j = JArr js")
    case True
    then obtain js where j: "j = JArr js" by blast
    with assms obtain xs where "lookup h v = Some (Array xs)" by (auto simp: rep_array_iff)
    with \<open>keyEncoding L = ''bytewise''\<close> have "normalizeKey_h L v h = (Inr v, h @ [])"
      by (simp add: normalizeKey_h_def hseq_def hbind_def bytewise_only_def hret_def
          isArray_def)
    with assms j \<open>keyEncoding L = ''bytewise''\<close> show ?thesis
      by (auto simp: normalizeKey_def)
  next
    case False
    with rep_not_array(1) [OF assms] have "\<And>xs. lookup h v \<noteq> Some (Array xs)" by blast
    then have "isArray v h = (Inr False, h)"
      by (auto simp: isArray_def split: option.splits cell.splits)
    with \<open>keyEncoding L = ''bytewise''\<close>
    have run: "normalizeKey_h L v h = (Inr (HRef (length h)), h @ [Array [v]])"
      by (simp add: normalizeKey_h_def hseq_def hbind_def bytewise_only_def hret_def
          alloc_def)
    from rep_append [OF assms, of "[Array [v]]"]
    have "rep (h @ [Array [v]]) (HRef (length h)) (JArr [j])"
      by (auto intro!: rep.rep_arr)
    moreover from False have "(case j of JArr xs \<Rightarrow> xs | _ \<Rightarrow> [j]) = [j]"
      by (cases j) simp_all
    ultimately show ?thesis using run \<open>keyEncoding L = ''bytewise''\<close>
      by (auto simp: normalizeKey_def)
  qed
qed

lemma adjacent_h_run:
  assumes v: "rep h v (JArr k)"
    and f: "\<And>h x j. rep h x j \<Longrightarrow> rep h (fh x) (fp j)"
    and mh: "\<And>h. m h =
       hseq (bytewise_only L) (
       hbind (clone v) (\<lambda>keys.
       hbind (read_array keys) (\<lambda>xs.
       if xs = [] then hret keys
       else hseq (store keys (Array (butlast xs))) (
            hseq (store keys (Array (butlast xs @ [fh (last xs)]))) (
            hret keys))))) h"
    and mp: "pr = (if keyEncoding L \<noteq> ''bytewise'' then Inl UnimplementedEncoding
                   else if k = [] then Inr k else Inr (butlast k @ [fp (last k)]))"
  shows "case pr of
           Inl e \<Rightarrow> m h = (Inl e, h)
         | Inr k' \<Rightarrow> (\<exists>x hs. m h = (Inr x, h @ hs) \<and> rep (h @ hs) x (JArr k'))"
proof (cases "keyEncoding L = ''bytewise''")
  case False
  then show ?thesis
    by (simp add: mh mp hseq_def hbind_def bytewise_only_def hthrow_def)
next
  case True
  from v obtain xs where xs: "lookup h v = Some (Array xs)" and l: "list_all2 (rep h) xs k"
    by (auto simp: rep_array_iff)
  let ?a = "HRef (length h)"
  have c: "clone v h = (Inr ?a, h @ [Array xs])" using xs by (simp add: clone_def alloc_def)
  have r: "read_array ?a (h @ [Array xs]) = (Inr xs, h @ [Array xs])"
    by (simp add: read_array_def lookup_def)
  show ?thesis
  proof (cases "xs = []")
    case True
    with l have k: "k = []" by simp
    from True c r \<open>keyEncoding L = ''bytewise''\<close>
    have "m h = (Inr ?a, h @ [Array []])"
      by (simp add: mh hseq_def hbind_def bytewise_only_def hret_def)
    moreover have "rep (h @ [Array []]) ?a (JArr [])"
      by (auto intro!: rep.rep_arr)
    ultimately show ?thesis using k \<open>keyEncoding L = ''bytewise''\<close> by (auto simp: mp)
  next
    case False
    from list_all2_snoc_parts [OF l False]
    have b: "list_all2 (rep h) (butlast xs) (butlast k)" and e: "rep h (last xs) (last k)"
      and k: "k \<noteq> []" by blast+
    let ?ys = "butlast xs @ [fh (last xs)]"
    from False c r \<open>keyEncoding L = ''bytewise''\<close>
    have run: "m h = (Inr ?a, h @ [Array ?ys])"
      by (simp add: mh hseq_def hbind_def bytewise_only_def hret_def store_def)
    from b f [OF e] have "list_all2 (rep h) ?ys (butlast k @ [fp (last k)])"
      by (simp add: list_all2_appendI)
    then have "list_all2 (rep (h @ [Array ?ys])) ?ys (butlast k @ [fp (last k)])"
      by (rule list_all2_mono) (rule rep_append)
    then have "rep (h @ [Array ?ys]) ?a (JArr (butlast k @ [fp (last k)]))"
      by (auto intro!: rep.rep_arr)
    with run k \<open>keyEncoding L = ''bytewise''\<close> show ?thesis by (auto simp: mp)
  qed
qed

lemma getPreviousKey_h_run:
  assumes "rep h v (JArr k)"
  shows "case getPreviousKey P L k of
           Inl e \<Rightarrow> getPreviousKey_h P L v h = (Inl e, h)
         | Inr k' \<Rightarrow> (\<exists>x hs. getPreviousKey_h P L v h = (Inr x, h @ hs)
                        \<and> rep (h @ hs) x (JArr k'))"
  by (rule adjacent_h_run [OF assms, where fh = "getPreviousKey'_h P" and fp = "getPreviousKey' P"])
     (simp_all add: rep_previous getPreviousKey_h_def getPreviousKey_def)

lemma getNextKey_h_run:
  assumes "rep h v (JArr k)"
  shows "case getNextKey P L k of
           Inl e \<Rightarrow> getNextKey_h P L v h = (Inl e, h)
         | Inr k' \<Rightarrow> (\<exists>x hs. getNextKey_h P L v h = (Inr x, h @ hs)
                        \<and> rep (h @ hs) x (JArr k'))"
  by (rule adjacent_h_run [OF assms, where fh = "getNextKey'_h P" and fp = "getNextKey' P"])
     (simp_all add: rep_next getNextKey_h_def getNextKey_def)

lemma getEmptyKey_h_run:
  "case getEmptyKey L of
     Inl e \<Rightarrow> getEmptyKey_h L h = (Inl e, h)
   | Inr k \<Rightarrow> (\<exists>x hs. getEmptyKey_h L h = (Inr x, h @ hs) \<and> rep (h @ hs) x (JArr k))"
  by (auto simp: getEmptyKey_def getEmptyKey_h_def hseq_def hbind_def bytewise_only_def
      hthrow_def hret_def alloc_def intro!: rep.rep_arr)

lemma getMaximumKey_h_run:
  "case getMaximumKey L of
     Inl e \<Rightarrow> getMaximumKey_h L h = (Inl e, h)
   | Inr k \<Rightarrow> (\<exists>x hs. getMaximumKey_h L h = (Inr x, h @ hs) \<and> rep (h @ hs) x (JArr k))"
  by (auto simp: getMaximumKey_def getMaximumKey_h_def hseq_def hbind_def bytewise_only_def
      hthrow_def hret_def alloc_def intro!: rep.rep_arr rep.intros)


lemma concatKeys_h_run:
  assumes "rep h v1 (JArr k1)" and "rep h v2 j2"
  shows "case concatKeys L k1 (concat_items j2) of
           Inl e \<Rightarrow> concatKeys_h L v1 v2 h = (Inl e, h)
         | Inr k \<Rightarrow> (\<exists>x hs. concatKeys_h L v1 v2 h = (Inr x, h @ hs)
                       \<and> rep (h @ hs) x (JArr k))"
proof (cases "keyEncoding L = ''bytewise''")
  case False
  then show ?thesis
    by (simp add: concatKeys_def concatKeys_h_def hseq_def hbind_def bytewise_only_def
        hthrow_def)
next
  case True
  from assms(1) obtain xs where xs: "lookup h v1 = Some (Array xs)"
    and l1: "list_all2 (rep h) xs k1" by (auto simp: rep_array_iff)
  have "\<exists>ys. list_all2 (rep h) ys (concat_items j2)
          \<and> concatKeys_h L v1 v2 h = (Inr (HRef (length h)), h @ [Array (xs @ ys)])"
  proof (cases "\<exists>js. j2 = JArr js")
    case True
    then obtain js where j: "j2 = JArr js" by blast
    with assms(2) obtain ys where ys: "lookup h v2 = Some (Array ys)"
      and l2: "list_all2 (rep h) ys js" by (auto simp: rep_array_iff)
    from xs ys \<open>keyEncoding L = ''bytewise''\<close>
    have "concatKeys_h L v1 v2 h = (Inr (HRef (length h)), h @ [Array (xs @ ys)])"
      by (simp add: concatKeys_h_def hseq_def hbind_def bytewise_only_def hret_def
          read_array_def isArray_def alloc_def)
    with l2 j show ?thesis by (auto simp: concat_items_def)
  next
    case False
    with rep_not_array(1) [OF assms(2)] have "\<And>ys. lookup h v2 \<noteq> Some (Array ys)" by blast
    then have "isArray v2 h = (Inr False, h)"
      by (auto simp: isArray_def split: option.splits cell.splits)
    with xs \<open>keyEncoding L = ''bytewise''\<close>
    have "concatKeys_h L v1 v2 h = (Inr (HRef (length h)), h @ [Array (xs @ [v2])])"
      by (simp add: concatKeys_h_def hseq_def hbind_def bytewise_only_def hret_def
          read_array_def alloc_def)
    moreover from False have "concat_items j2 = [j2]"
      by (cases j2) (simp_all add: concat_items_def)
    ultimately show ?thesis using assms(2) by auto
  qed
  then obtain ys where l2: "list_all2 (rep h) ys (concat_items j2)"
    and run: "concatKeys_h L v1 v2 h = (Inr (HRef (length h)), h @ [Array (xs @ ys)])"
    by blast
  from l1 l2 have "list_all2 (rep h) (xs @ ys) (k1 @ concat_items j2)"
    by (rule list_all2_appendI)
  then have "list_all2 (rep (h @ [Array (xs @ ys)])) (xs @ ys) (k1 @ concat_items j2)"
    by (rule list_all2_mono) (rule rep_append)
  then have "rep (h @ [Array (xs @ ys)]) (HRef (length h)) (JArr (k1 @ concat_items j2))"
    by (auto intro!: rep.rep_arr)
  with run \<open>keyEncoding L = ''bytewise''\<close> show ?thesis by (auto simp: concatKeys_def)
qed

lemma concatKeys_h_not_array:
  assumes "keyEncoding L = ''bytewise''" and "rep h v1 j1" and "\<And>k. j1 \<noteq> JArr k"
  shows "concatKeys_h L v1 v2 h = (Inl JSTypeError, h)"
  using assms(1) rep_not_array(2) [OF assms(2,3)]
  by (simp add: concatKeys_h_def hseq_def hbind_def bytewise_only_def hret_def read_array_def)

subsection \<open>Rules of the simulation\<close>

lemma simI:
  assumes "\<And>h. I h \<Longrightarrow>
     (case pr of
        Inl e \<Rightarrow> (\<exists>h'. m h = (Inl e, h'))
      | Inr y \<Rightarrow> (\<exists>x h'. m h = (Inr x, h') \<and> R x y h'))"
  shows "sim I m pr R"
  using assms unfolding sim_def by blast

lemma simD:
  assumes "sim I m pr R" and "I h"
  shows "case pr of
        Inl e \<Rightarrow> (\<exists>h'. m h = (Inl e, h'))
      | Inr y \<Rightarrow> (\<exists>x h'. m h = (Inr x, h') \<and> R x y h')"
  using assms unfolding sim_def by blast

lemma sim_bind:
  assumes "sim I m pr R" and "\<And>x y. pr = Inr y \<Longrightarrow> sim (R x y) (f x) (g y) S"
  shows "sim I (hbind m f) (ebind pr g) S"
proof (rule simI)
  fix h assume "I h"
  from simD [OF assms(1) this] show
    "case ebind pr g of Inl e \<Rightarrow> \<exists>h'. hbind m f h = (Inl e, h')
     | Inr y \<Rightarrow> \<exists>x h'. hbind m f h = (Inr x, h') \<and> S x y h'"
  proof (cases pr)
    case (Inl e)
    with simD [OF assms(1) \<open>I h\<close>] show ?thesis by (auto simp: hbind_def ebind_def)
  next
    case (Inr y)
    with simD [OF assms(1) \<open>I h\<close>] obtain x h1 where m: "m h = (Inr x, h1)" and "R x y h1"
      by auto
    from simD [OF assms(2) [OF Inr] this(2)] m Inr show ?thesis
      by (auto simp: hbind_def ebind_def split: sum.splits)
  qed
qed

lemma sim_seq:
  assumes "sim I m pr R" and "\<And>y. sim (R () y) k (g y) S"
  shows "sim I (hseq m k) (ebind pr g) S"
  unfolding hseq_def
proof (rule sim_bind [OF assms(1)])
  fix x :: unit and y
  from assms(2) [of y] show "sim (R x y) k (g y) S" by simp
qed

lemma sim_pre:
  assumes "sim I' m pr R" and "\<And>h. I h \<Longrightarrow> I' h"
  shows "sim I m pr R"
  using assms unfolding sim_def by blast

lemma sim_throw: "sim I (hthrow e) (Inl e) R"
  by (simp add: sim_def hthrow_def)

lemma sim_if:
  assumes "c = c'" and "c \<Longrightarrow> sim I a a' S" and "\<not> c \<Longrightarrow> sim I b b' S"
  shows "sim I (if c then a else b) (if c' then a' else b') S"
  using assms by simp

lemma sim_bind_if:
  assumes "c = c'" and "c \<Longrightarrow> sim I (hbind a f) (ebind a' g) S"
    and "\<not> c \<Longrightarrow> sim I (hbind b f) (ebind b' g) S"
  shows "sim I (hbind (if c then a else b) f) (ebind (if c' then a' else b') g) S"
  using assms by simp

lemma holds_nil: "holds obj cur vs h \<Longrightarrow> holds obj cur [] h"
  by (simp add: holds_def)

lemma holds_known: "holds obj cur vs h \<Longrightarrow> (v, j) \<in> set vs \<Longrightarrow> rep h v j"
  by (auto simp: holds_def)

lemma holds_cons: "holds obj cur vs h \<Longrightarrow> rep h v j \<Longrightarrow> holds obj cur ((v, j) # vs) h"
  by (auto simp: holds_def)

lemma sim_skip: "sim (holds obj cur vs) (hret ()) (Inr cur) (\<lambda>_ cur'. holds obj cur' [])"
  by (auto simp: sim_def hret_def intro: holds_nil)

lemma sim_hasOwn:
  assumes "\<And>b. sim (holds obj cur vs) (f b) (g b) S"
  shows "sim (holds obj cur vs) (hbind (hasOwn obj p) f) (ebind (call_hasOwnProperty cur p) g) S"
proof (rule simI)
  fix h assume h: "holds obj cur vs h"
  then have run: "hasOwn obj p h =
      (case call_hasOwnProperty cur p of Inl e \<Rightarrow> (Inl e, h) | Inr b \<Rightarrow> (Inr b, h))"
    by (simp add: holds_def hasOwn_run)
  show "case ebind (call_hasOwnProperty cur p) g of
          Inl e \<Rightarrow> \<exists>h'. hbind (hasOwn obj p) f h = (Inl e, h')
        | Inr y \<Rightarrow> \<exists>x h'. hbind (hasOwn obj p) f h = (Inr x, h') \<and> S x y h'"
  proof (cases "call_hasOwnProperty cur p")
    case (Inl e)
    with run show ?thesis by (simp add: hbind_def ebind_def)
  next
    case (Inr b)
    with run simD [OF assms [of b] h] show ?thesis
      by (cases "g b") (simp_all add: hbind_def ebind_def)
  qed
qed

lemma sim_getp:
  assumes "\<And>v. (\<And>P. truthy_h P v = truthy P (getprop cur p))
             \<Longrightarrow> sim (holds obj cur ((v, getprop cur p) # vs)) (f v) pr S"
  shows "sim (holds obj cur vs) (hbind (getp obj p) f) pr S"
proof (rule simI)
  fix h assume h: "holds obj cur vs h"
  then obtain v where g: "getp obj p h = (Inr v, h)" and r: "rep h v (getprop cur p)"
    using getp_run [of h obj cur p] by (auto simp: holds_def)
  from simD [OF assms holds_cons [OF h r]] rep_truthy [OF r] g show
    "case pr of Inl e \<Rightarrow> \<exists>h'. hbind (getp obj p) f h = (Inl e, h')
     | Inr y \<Rightarrow> \<exists>x h'. hbind (getp obj p) f h = (Inr x, h') \<and> S x y h'"
    by (cases pr) (simp_all add: hbind_def)
qed

lemma sim_alloc_step:
  assumes run: "\<And>h. holds obj cur vs h \<Longrightarrow>
        (case pr of
           Inl e \<Rightarrow> m h = (Inl e, h)
         | Inr k \<Rightarrow> (\<exists>x hs. m h = (Inr x, h @ hs) \<and> rep (h @ hs) x (JArr k)))"
    and rest: "\<And>x k. pr = Inr k \<Longrightarrow> sim (holds obj cur ((x, JArr k) # vs)) (f x) (g k) S"
  shows "sim (holds obj cur vs) (hbind m f) (ebind pr g) S"
proof (rule sim_bind [where R = "\<lambda>x k. holds obj cur ((x, JArr k) # vs)"])
  show "sim (holds obj cur vs) m pr (\<lambda>x k. holds obj cur ((x, JArr k) # vs))"
  proof (rule simI)
    fix h assume h: "holds obj cur vs h"
    from run [OF h] show
      "case pr of Inl e \<Rightarrow> \<exists>h'. m h = (Inl e, h')
       | Inr y \<Rightarrow> \<exists>x h'. m h = (Inr x, h') \<and> holds obj cur ((x, JArr y) # vs) h'"
      by (auto split: sum.splits intro!: holds_cons holds_append [OF h])
  qed
qed (erule rest)

lemma sim_normalizeKey:
  assumes "(v, j) \<in> set vs"
    and "\<And>x k. sim (holds obj cur ((x, JArr k) # vs)) (f x) (g k) S"
  shows "sim (holds obj cur vs) (hbind (normalizeKey_h L v) f) (ebind (normalizeKey L j) g) S"
  by (rule sim_alloc_step [OF _ assms(2)])
     (rule normalizeKey_h_run [OF holds_known [OF _ assms(1)]])

lemma sim_getPreviousKey:
  assumes "(v, JArr k) \<in> set vs"
    and "\<And>x k. sim (holds obj cur ((x, JArr k) # vs)) (f x) (g k) S"
  shows "sim (holds obj cur vs) (hbind (getPreviousKey_h P L v) f)
           (ebind (getPreviousKey P L k) g) S"
  by (rule sim_alloc_step [OF _ assms(2)])
     (rule getPreviousKey_h_run [OF holds_known [OF _ assms(1)]])

lemma sim_getNextKey:
  assumes "(v, JArr k) \<in> set vs"
    and "\<And>x k. sim (holds obj cur ((x, JArr k) # vs)) (f x) (g k) S"
  shows "sim (holds obj cur vs) (hbind (getNextKey_h P L v) f)
           (ebind (getNextKey P L k) g) S"
  by (rule sim_alloc_step [OF _ assms(2)])
     (rule getNextKey_h_run [OF holds_known [OF _ assms(1)]])

lemma sim_getEmptyKey:
  assumes "\<And>x k. sim (holds obj cur ((x, JArr k) # vs)) (f x) (g k) S"
  shows "sim (holds obj cur vs) (hbind (getEmptyKey_h L) f) (ebind (getEmptyKey L) g) S"
  by (rule sim_alloc_step [OF _ assms]) (rule getEmptyKey_h_run)

lemma sim_concatKeys:
  assumes "(v1, JArr k1) \<in> set vs" and "(v2, j2) \<in> set vs"
    and "\<And>x k. sim (holds obj cur ((x, JArr k) # vs)) (f x) (g k) S"
  shows "sim (holds obj cur vs) (hbind (concatKeys_h L v1 v2) f)
           (ebind (concatKeys L k1 (concat_items j2)) g) S"
  by (rule sim_alloc_step [OF _ assms(3)])
     (rule concatKeys_h_run [OF holds_known [OF _ assms(1)] holds_known [OF _ assms(2)]])

lemma sim_setp:
  assumes "(v, j) \<in> set vs"
  shows "sim (holds obj cur vs) (setp obj p v) (Inr (cur(p \<mapsto> j)))
           (\<lambda>_ cur'. holds obj cur' [])"
proof (rule simI)
  fix h assume h: "holds obj cur vs h"
  from setp_run [OF h holds_known [OF h assms], of p] show
    "case Inr (cur(p \<mapsto> j)) of Inl e \<Rightarrow> \<exists>h'. setp obj p v h = (Inl e, h')
     | Inr y \<Rightarrow> \<exists>x h'. setp obj p v h = (Inr x, h') \<and> holds obj y [] h'"
    by (auto intro: holds_nil)
qed

lemma sim_setp_delp:
  assumes "(v, j) \<in> set vs"
  shows "sim (holds obj cur vs) (hseq (setp obj p v) (delp obj q))
           (Inr (cur(p \<mapsto> j, q := None))) (\<lambda>_ cur'. holds obj cur' [])"
proof (rule simI)
  fix h assume h: "holds obj cur vs h"
  from setp_run [OF h holds_known [OF h assms], of p] obtain h1 where
    s: "setp obj p v h = (Inr (), h1)" and h1: "holds obj (cur(p \<mapsto> j)) vs h1" by blast
  from delp_run [OF h1, of q] obtain h2 where
    d: "delp obj q h1 = (Inr (), h2)" and h2: "holds obj (cur(p \<mapsto> j, q := None)) vs h2"
    by blast
  from s d h2 show
    "case Inr (cur(p \<mapsto> j, q := None)) of
       Inl e \<Rightarrow> \<exists>h'. hseq (setp obj p v) (delp obj q) h = (Inl e, h')
     | Inr y \<Rightarrow> \<exists>x h'. hseq (setp obj p v) (delp obj q) h = (Inr x, h') \<and> holds obj y [] h'"
    by (auto simp: hseq_def hbind_def intro: holds_nil)
qed


lemma sim_append_maximum:
  assumes "(v, getprop cur p) \<in> set vs"
  shows "sim (holds obj cur vs)
           (hbind (getMaximumKey_h L) (\<lambda>m. hbind (concatKeys_h L v m) (setp obj q)))
           (ebind (getMaximumKey L) (\<lambda>m. ebind (getkey cur p) (\<lambda>s.
              ebind (concatKeys L s m) (\<lambda>k. Inr (cur(q \<mapsto> JArr k))))))
           (\<lambda>_ cur'. holds obj cur' [])"
proof (rule sim_alloc_step [OF getMaximumKey_h_run])
  fix x :: "'a hval" and m :: "'a key"
  assume "getMaximumKey L = Inr m"
  then have L: "keyEncoding L = ''bytewise''"
    by (simp add: getMaximumKey_def split: if_splits)
  let ?vs = "(x, JArr m) # vs"
  show "sim (holds obj cur ?vs) (hbind (concatKeys_h L v x) (setp obj q))
          (ebind (getkey cur p) (\<lambda>s. ebind (concatKeys L s m) (\<lambda>k. Inr (cur(q \<mapsto> JArr k)))))
          (\<lambda>_ cur'. holds obj cur' [])"
  proof (cases "\<exists>s. getprop cur p = JArr s")
    case True
    then obtain s where s: "getprop cur p = JArr s" by blast
    have "sim (holds obj cur ?vs) (hbind (concatKeys_h L v x) (setp obj q))
            (ebind (concatKeys L s (concat_items (JArr m))) (\<lambda>k. Inr (cur(q \<mapsto> JArr k))))
            (\<lambda>_ cur'. holds obj cur' [])"
      using assms s by (intro sim_concatKeys sim_setp) simp_all
    with s show ?thesis by (simp add: getkey_def ebind_def concat_items_def)
  next
    case False
    show ?thesis
    proof (rule simI)
      fix h assume h: "holds obj cur ?vs h"
      from holds_known [OF h, of v "getprop cur p"] assms
      have r: "rep h v (getprop cur p)" by simp
      from False have n: "\<And>k. getprop cur p \<noteq> JArr k" by blast
      from False have g: "getkey cur p = Inl JSTypeError"
        by (cases "getprop cur p") (simp_all add: getkey_def)
      show "case ebind (getkey cur p)
                  (\<lambda>s. ebind (concatKeys L s m) (\<lambda>k. Inr (cur(q \<mapsto> JArr k)))) of
              Inl e \<Rightarrow> \<exists>h'. hbind (concatKeys_h L v x) (setp obj q) h = (Inl e, h')
            | Inr y \<Rightarrow> \<exists>xa h'. hbind (concatKeys_h L v x) (setp obj q) h = (Inr xa, h')
                          \<and> holds obj y [] h'"
        using concatKeys_h_not_array [OF L r n] g by (simp add: ebind_def hbind_def)
    qed
  qed
qed


lemmas sim_rules =
  sim_seq sim_hasOwn sim_getp sim_if sim_bind_if sim_throw sim_skip sim_normalizeKey
  sim_getPreviousKey sim_getNextKey sim_getEmptyKey sim_concatKeys sim_append_maximum
  sim_setp_delp sim_setp

subsection \<open>The parts of the normalizer\<close>

lemma sim_select_start:
  "sim (holds obj cur []) (select_start_h P L obj) (select_start P L cur)
     (\<lambda>_ cur'. holds obj cur' [])"
  unfolding select_start_h_def select_start_def
  by (rule sim_rules | simp)+

lemma sim_select_end:
  "sim (holds obj cur []) (select_end_h P L obj) (select_end P L cur)
     (\<lambda>_ cur'. holds obj cur' [])"
  unfolding select_end_h_def select_end_def
  by (rule sim_rules | simp)+


lemma holds_subset: "holds obj cur vs h \<Longrightarrow> set ws \<subseteq> set vs \<Longrightarrow> holds obj cur ws h"
  by (auto simp: holds_def)

lemma sim_setp_keep:
  assumes "(v, j) \<in> set vs" and "set ws \<subseteq> set vs"
  shows "sim (holds obj cur vs) (setp obj p v) (Inr (cur(p \<mapsto> j)))
           (\<lambda>_ cur'. holds obj cur' ws)"
proof (rule simI)
  fix h assume h: "holds obj cur vs h"
  from setp_run [OF h holds_known [OF h assms(1)], of p] assms(2) show
    "case Inr (cur(p \<mapsto> j)) of Inl e \<Rightarrow> \<exists>h'. setp obj p v h = (Inl e, h')
     | Inr y \<Rightarrow> \<exists>x h'. setp obj p v h = (Inr x, h') \<and> holds obj y ws h'"
    by (auto intro: holds_subset)
qed

lemma sim_delp:
  "sim (holds obj cur vs) (delp obj q) (Inr (cur(q := None))) (\<lambda>_ cur'. holds obj cur' [])"
proof (rule simI)
  fix h assume h: "holds obj cur vs h"
  from delp_run [OF h, of q] show
    "case Inr (cur(q := None)) of Inl e \<Rightarrow> \<exists>h'. delp obj q h = (Inl e, h')
     | Inr y \<Rightarrow> \<exists>x h'. delp obj q h = (Inr x, h') \<and> holds obj y [] h'"
    by (auto intro: holds_nil)
qed

lemma sim_copy_twice:
  assumes "p \<noteq> q1"
  shows "sim (holds obj cur vs)
           (hseq (hbind (getp obj p) (setp obj q1)) (hbind (getp obj p) (setp obj q2)))
           (Inr (cur(q1 \<mapsto> getprop cur p, q2 \<mapsto> getprop cur p)))
           (\<lambda>_ cur'. holds obj cur' [])"
proof -
  have "Inr (cur(q1 \<mapsto> getprop cur p, q2 \<mapsto> getprop cur p))
          = ebind (Inr (cur(q1 \<mapsto> getprop cur p)) :: error + 'a options)
              (\<lambda>o1. Inr (o1(q2 \<mapsto> getprop o1 p)))"
    using assms by (simp add: ebind_def getprop_def)
  then show ?thesis
    by (simp only:) (rule sim_rules | simp)+
qed

lemma sim_select_value:
  "sim (holds obj cur []) (select_value_h obj) (select_value cur)
     (\<lambda>_ cur'. holds obj cur' [])"
  unfolding select_value_h_def select_value_def
  by (rule sim_copy_twice sim_rules | simp)+

lemma sim_select_prefix:
  "sim (holds obj cur []) (select_prefix_h L obj) (select_prefix L cur)
     (\<lambda>_ cur'. holds obj cur' [])"
  unfolding select_prefix_h_def select_prefix_def
proof (rule sim_hasOwn, rule sim_if [OF refl], rule sim_getp, rule sim_normalizeKey)
  fix v x :: "'a hval" and prefix :: "'a key"
  let ?vs = "[(x, JArr prefix), (v, getprop cur ''prefix'')]"
  show "(v, getprop cur ''prefix'') \<in> set [(v, getprop cur ''prefix'')]" by simp
  have stmt: "sim (holds obj c ?vs)
        (hbind (getp obj p) (\<lambda>s. hbind (concatKeys_h L x s) (setp obj p)))
        (ebind (concatKeys L prefix (concat_items (getprop c p)))
           (\<lambda>k. Inr (c(p \<mapsto> JArr k))))
        (\<lambda>_ cur'. holds obj cur' ?vs)" for c p
    by (rule sim_getp, rule sim_concatKeys, simp, simp, rule sim_setp_keep) auto
  show "sim (holds obj cur ?vs)
     (hseq (hbind (getp obj ''start'') (\<lambda>s. hbind (concatKeys_h L x s) (setp obj ''start'')))
        (hseq (hbind (getp obj ''end'') (\<lambda>e. hbind (concatKeys_h L x e) (setp obj ''end'')))
           (delp obj ''prefix'')))
     (ebind (ebind (concatKeys L prefix (concat_items (getprop cur ''start'')))
               (\<lambda>k. Inr (cur(''start'' \<mapsto> JArr k))))
        (\<lambda>o1. ebind (ebind (concatKeys L prefix (concat_items (getprop o1 ''end'')))
                       (\<lambda>k. Inr (o1(''end'' \<mapsto> JArr k))))
                (\<lambda>o2. Inr (o2(''prefix'' := None)))))
     (\<lambda>_ cur'. holds obj cur' [])"
    by (rule sim_seq [OF stmt], rule sim_seq [OF stmt], rule sim_delp)
qed (rule sim_skip)


lemma sim_select_swap:
  "sim (holds obj cur []) (hseq (select_swap_h P obj) (hret obj)) (Inr (select_swap P cur))
     (\<lambda>v r h. v = obj \<and> opts_rep h obj r)"
proof -
  have fin: "sim (holds obj c []) (hret obj) (Inr c) (\<lambda>v r h. v = obj \<and> opts_rep h obj r)"
    for c
    by (simp add: sim_def hret_def holds_def)
  have "sim (holds obj cur []) (hseq (select_swap_h P obj) (hret obj))
          (ebind (Inr (select_swap P cur) :: error + 'a options) Inr)
          (\<lambda>v r h. v = obj \<and> opts_rep h obj r)"
  proof (rule sim_seq [OF _ fin])
    show "sim (holds obj cur []) (select_swap_h P obj) (Inr (select_swap P cur))
            (\<lambda>_ cur'. holds obj cur' [])"
      unfolding select_swap_h_def select_swap_def
    proof (rule sim_getp, simp only: if_distrib [of Inr] , rule sim_if, simp)
      fix rev
      let ?e = "getprop cur ''end''" and ?s = "getprop cur ''start''"
      have "Inr (cur(''start'' \<mapsto> ?e, ''end'' \<mapsto> ?s))
              = ebind (Inr (cur(''start'' \<mapsto> ?e)) :: error + 'a options)
                  (\<lambda>o1. Inr (o1(''end'' \<mapsto> ?s)))"
        by (simp add: ebind_def)
      moreover have "sim (holds obj cur [(rev, getprop cur ''reverse'')])
         (hbind (getp obj ''start'')
           (\<lambda>tmp. hseq (hbind (getp obj ''end'') (setp obj ''start'')) (setp obj ''end'' tmp)))
         (ebind (Inr (cur(''start'' \<mapsto> ?e)) :: error + 'a options)
                  (\<lambda>o1. Inr (o1(''end'' \<mapsto> ?s))))
         (\<lambda>_ cur'. holds obj cur' [])"
      proof (rule sim_getp)
        fix tmp
        let ?vs = "[(tmp, ?s), (rev, getprop cur ''reverse'')]"
        show "sim (holds obj cur ?vs)
           (hseq (hbind (getp obj ''end'') (setp obj ''start'')) (setp obj ''end'' tmp))
           (ebind (Inr (cur(''start'' \<mapsto> ?e)) :: error + 'a options)
                  (\<lambda>o1. Inr (o1(''end'' \<mapsto> ?s))))
           (\<lambda>_ cur'. holds obj cur' [])"
        proof (rule sim_seq [where R = "\<lambda>_ cur'. holds obj cur' ?vs"])
          show "sim (holds obj cur ?vs) (hbind (getp obj ''end'') (setp obj ''start''))
                  (Inr (cur(''start'' \<mapsto> ?e))) (\<lambda>_ cur'. holds obj cur' ?vs)"
            by (rule sim_getp, rule sim_setp_keep) auto
          show "sim (holds obj y ?vs) (setp obj ''end'' tmp) (Inr (y(''end'' \<mapsto> ?s)))
                  (\<lambda>_ cur'. holds obj cur' [])" for y
            by (rule sim_setp) simp
        qed
      qed
      ultimately show "sim (holds obj cur [(rev, getprop cur ''reverse'')])
         (hbind (getp obj ''start'')
           (\<lambda>tmp. hseq (hbind (getp obj ''end'') (setp obj ''start'')) (setp obj ''end'' tmp)))
         (Inr (cur(''start'' \<mapsto> ?e, ''end'' \<mapsto> ?s)))
         (\<lambda>_ cur'. holds obj cur' [])"
        by simp
    qed (rule sim_skip)
  qed
  then show ?thesis by (simp add: ebind_def)
qed


text \<open>
  Run on a heap where \<open>options\<close> represents \<open>opts\<close>, the normalizer on the heap
  throws what the normalizer on values throws, or returns an object representing what
  that one returns: the sharing of arrays between the config and the result changes
  nothing in what is computed.
\<close>

lemma normalizeKeySelectors_h_refines:
  fixes P :: "'n platform"
  assumes "opts_rep h options opts"
  shows "case normalizeKeySelectors P L opts of
           Inl e \<Rightarrow> (\<exists>h'. normalizeKeySelectors_h P L options h = (Inl e, h'))
         | Inr r \<Rightarrow> (\<exists>v h'. normalizeKeySelectors_h P L options h = (Inr v, h')
                        \<and> opts_rep h' v r)"
proof -
  from assms obtain ps where ps: "lookup h options = Some (Object ps)"
    unfolding opts_rep_def by blast
  let ?obj = "HRef (length h) :: 'n hval" and ?h = "h @ [Object ps]"
  let ?rest = "hseq (select_value_h ?obj) (hseq (select_start_h P L ?obj)
     (hseq (select_end_h P L ?obj) (hseq (select_prefix_h L ?obj)
     (hseq (select_swap_h P ?obj) (hret ?obj)))))"
  from ps have c: "clone options h = (Inr ?obj, ?h)" by (simp add: clone_def alloc_def)
  then have run: "normalizeKeySelectors_h P L options h = ?rest ?h"
    by (simp add: normalizeKeySelectors_h_def hbind_def)
  from ps assms have "opts_rep ?h ?obj opts"
    unfolding opts_rep_def
    by (auto simp: lookup_def intro: option.rel_mono_strong rep_append)
  then have pre: "holds ?obj opts [] ?h" by (simp add: holds_def)
  have "sim (holds ?obj opts []) ?rest (normalizeKeySelectors P L opts)
          (\<lambda>v r h'. v = ?obj \<and> opts_rep h' ?obj r)"
    unfolding normalizeKeySelectors_def
    by (rule sim_seq [OF sim_select_value], rule sim_seq [OF sim_select_start],
        rule sim_seq [OF sim_select_end], rule sim_seq [OF sim_select_prefix],
        rule sim_select_swap)
  from simD [OF this pre] run show ?thesis
    by (auto split: sum.splits)
qed


lemma example_config_rep: "opts_rep example_heap (HRef 1) startAfter_m_reverse"
proof -
  have "rep example_heap (HRef 0) (JArr [JStr [0x6D]])"
    by (rule rep.rep_arr [where xs = "[HStr [0x6D]]"])
       (simp_all add: example_heap_def rep.intros)
  then show ?thesis
    unfolding opts_rep_def startAfter_m_reverse_def
    by (intro exI [of _ "[(''startAfter'', HRef 0), (''reverse'', HBool True)]"])
       (simp add: lookup_def example_heap_def rep.intros)
qed

lemma example_config_refines:
  "\<exists>v h'. normalizeKeySelectors_h micro_platform default_layer (HRef 1) example_heap
             = (Inr v, h')
         \<and> opts_rep h' v [''reverse'' \<mapsto> JBool True, ''start'' \<mapsto> JArr [],
               ''end'' \<mapsto> JArr [JStr [0x6C, 0xFFFF], JUndefined]]"
proof -
  have L: "keyEncoding default_layer = ''bytewise''" by (simp add: default_layer_def)
  from normalizeKeySelectors_h_refines [OF example_config_rep, of micro_platform default_layer]
    startAfter_m_reverse_result [OF L, of micro_platform]
  show ?thesis by simp
qed

end
